theory Spec2Isabelle
  imports Main "HOL-Library.Multiset"
begin

section \<open>Data model (parser.h)\<close>

text \<open>
  Pointers into the heap are addresses; NULL is \<open>None\<close>. The blocks of this program have one
  owner each and are never shared, so a pointer is modelled together with the contents of the
  block it points to: a \<open>char *\<close> is NULL or the address of a string and that string, an
  array is NULL or its address and its cells.
\<close>

type_synonym addr = nat
type_synonym cstr = "(addr \<times> string) option"

record Command =
  argv :: "(addr \<times> cstr list) option"
  in_file :: cstr
  out_file :: cstr
  err_file :: cstr

record Pipeline =
  cmds :: "(addr \<times> Command list) option"
  n_cmds :: int

section \<open>Tokens and the tokenizer (parser.c)\<close>

text \<open>
  A C string is modelled by the list of its characters before the terminating NUL, so
  reading \<open>*(p + 1)\<close> at the last character sees the terminator, which is none of the
  characters the tokenizer compares with. \<open>isspace\<close> is the one of the "C" locale (the
  shell never calls \<open>setlocale\<close>): space, \<open>\t \n \v \f \r\<close>.
\<close>

definition isspace :: "char \<Rightarrow> bool" where
  "isspace c \<longleftrightarrow>
     c = CHR '' '' \<or> c = CHR 0x09 \<or> c = CHR 0x0A \<or> c = CHR 0x0B \<or> c = CHR 0x0C \<or> c = CHR 0x0D"

text \<open>The test \<open>*p == '<' || *p == '>' || *p == '|'\<close> of \<open>tokenize\<close>.\<close>

definition op_char :: "char \<Rightarrow> bool" where
  "op_char c \<longleftrightarrow> c = CHR ''<'' \<or> c = CHR ''>'' \<or> c = CHR ''|''"

text \<open>The test \<open>*p == '2' && *(p + 1) == '>'\<close>.\<close>

fun err_start :: "string \<Rightarrow> bool" where
  "err_start (c # d # _) = (c = CHR ''2'' \<and> d = CHR ''>'')"
| "err_start _ = False"

text \<open>
  The inner loop of step 4 of \<open>tokenize\<close>: from the start of a word, the position where
  the word stops (the rest of the line from there).
\<close>

fun word_end :: "string \<Rightarrow> string" where
  "word_end [] = []"
| "word_end (c # cs) =
     (if isspace c \<or> op_char c then c # cs
      else if err_start (c # cs) then c # cs
      else word_end cs)"

text \<open>\<open>push_token\<close> on values: a token of length 0 is not stored.\<close>

definition push_word :: "string \<Rightarrow> string list \<Rightarrow> string list" where
  "push_word w ts = (if w = [] then ts else w # ts)"

lemma word_end_le: "length (word_end p) \<le> length p"
  by (induction p rule: word_end.induct) auto

text \<open>
  The token strings \<open>tokenize\<close> produces for a line, in order: the outer loop, with the
  whitespace skip, the \<open>2>\<close> operator, the one-character operators and the word scan.
\<close>

function lex_line :: "string \<Rightarrow> string list" where
  "lex_line p =
     (case dropWhile isspace p of
        [] \<Rightarrow> []
      | c # cs \<Rightarrow>
          if err_start (c # cs) then take 2 (c # cs) # lex_line (drop 2 (c # cs))
          else if op_char c then [c] # lex_line cs
          else (let q = word_end (c # cs)
                in push_word (take (length (c # cs) - length q) (c # cs)) (lex_line q)))"
  by pat_completeness auto
termination
proof (relation "measure length", goal_cases)
  case 1
  show ?case by simp
next
  case (2 p c cs)
  with length_dropWhile_le [of isspace p] show ?case by simp
next
  case (3 p c cs)
  with length_dropWhile_le [of isspace p] show ?case by simp
next
  case (4 p c cs q)
  from 4(1) hd_dropWhile [of isspace p] have "\<not> isspace c" by simp
  with 4 have "word_end (c # cs) = word_end cs" by simp
  with 4 length_dropWhile_le [of isspace p] word_end_le [of cs] show ?case by simp
qed

declare lex_line.simps [simp del]

subsection \<open>Tokens do not depend on whitespace around operators\<close>

definition stops :: "string \<Rightarrow> bool" where
  "stops ys \<longleftrightarrow> ys = [] \<or> isspace (hd ys) \<or> op_char (hd ys) \<or> err_start ys"

definition straddles :: "string \<Rightarrow> string \<Rightarrow> bool" where
  "straddles xs ys \<longleftrightarrow> xs \<noteq> [] \<and> last xs = CHR ''2'' \<and> ys \<noteq> [] \<and> hd ys = CHR ''>''"

lemma word_end_stops: "stops ys \<Longrightarrow> word_end ys = ys"
  by (cases ys) (auto simp: stops_def)

lemma err_start_append:
  "\<not> straddles (c # cs) ys \<Longrightarrow> err_start (c # cs @ ys) = err_start (c # cs)"
  by (cases cs; cases ys) (auto simp: straddles_def)

lemma straddles_tl: "\<not> straddles (c # cs) ys \<Longrightarrow> \<not> straddles cs ys"
  by (auto simp: straddles_def)

lemma word_end_append:
  "stops ys \<Longrightarrow> \<not> straddles xs ys \<Longrightarrow>
   word_end (xs @ ys) = (if word_end xs = [] then ys else word_end xs @ ys)"
proof (induction xs rule: word_end.induct)
  case 1
  then show ?case by (simp add: word_end_stops)
next
  case (2 c cs)
  from 2(3) have e: "err_start (c # cs @ ys) = err_start (c # cs)" by (rule err_start_append)
  from 2(3) have s: "\<not> straddles cs ys" by (rule straddles_tl)
  show ?case
  proof (cases "isspace c \<or> op_char c \<or> err_start (c # cs)")
    case True
    with e show ?thesis by auto
  next
    case False
    with e 2(1) [OF _ _ 2(2) s] show ?thesis by simp
  qed
qed

lemma lex_line_skip: "lex_line (dropWhile isspace p) = lex_line p"
  by (subst (1 2) lex_line.simps) simp

lemma lex_line_ws: "\<forall>c\<in>set ws. isspace c \<Longrightarrow> lex_line (ws @ p) = lex_line p"
  by (subst (1 2) lex_line.simps) (simp add: dropWhile_append2)

lemma lex_line_Nil: "lex_line [] = []"
  by (simp add: lex_line.simps)

lemma word_end_suffix: "\<exists>pre. xs = pre @ word_end xs"
proof (induction xs rule: word_end.induct)
  case 1
  show ?case by simp
next
  case (2 c cs)
  show ?case
  proof (cases "isspace c \<or> op_char c \<or> err_start (c # cs)")
    case True
    then have "c # cs = [] @ word_end (c # cs)" by auto
    then show ?thesis by blast
  next
    case False
    with 2 obtain pre where "cs = pre @ word_end cs" by auto
    with False have "c # cs = (c # pre) @ word_end (c # cs)" by simp
    then show ?thesis by blast
  qed
qed

lemma straddles_suffix: "\<not> straddles (pre @ q) ys \<Longrightarrow> \<not> straddles q ys"
  by (auto simp: straddles_def)

lemma straddles_word_end: "\<not> straddles xs ys \<Longrightarrow> \<not> straddles (word_end xs) ys"
  using word_end_suffix [of xs] straddles_suffix by metis

lemma push_word_append: "push_word w (a @ b) = push_word w a @ b"
  by (simp add: push_word_def)

lemma lex_line_append:
  "stops ys \<Longrightarrow> \<not> straddles xs ys \<Longrightarrow> lex_line (xs @ ys) = lex_line xs @ lex_line ys"
proof (induction xs rule: lex_line.induct)
  case (1 p)
  show ?case
  proof (cases "dropWhile isspace p")
    case Nil
    then have "\<forall>c\<in>set p. isspace c" by (simp add: dropWhile_eq_Nil_conv)
    then have "lex_line (p @ ys) = lex_line ys" by (rule lex_line_ws)
    moreover have "lex_line p = []" by (subst lex_line.simps) (simp only: Nil list.case)
    ultimately show ?thesis by simp
  next
    case (Cons c cs)
    have p: "p = takeWhile isspace p @ c # cs"
      using takeWhile_dropWhile_id [of isspace p] Cons by simp
    then have cp: "c \<in> set p" by (metis in_set_conv_decomp)
    from Cons hd_dropWhile [of isspace p] have nsp: "\<not> isspace c" by simp
    from cp nsp Cons have dw: "dropWhile isspace (p @ ys) = c # cs @ ys"
      by (simp add: dropWhile_append1)
    from p "1.prems"(2) have ns: "\<not> straddles (c # cs) ys"
      using straddles_suffix by metis
    then have es: "err_start (c # cs @ ys) = err_start (c # cs)" by (rule err_start_append)
    have L: "lex_line (p @ ys) = lex_line (c # cs @ ys)"
      using lex_line_skip [of "p @ ys"] dw by simp
    have R: "lex_line p = lex_line (c # cs)"
      using lex_line_skip [of p] Cons by simp
    show ?thesis
    proof (cases "err_start (c # cs)")
      case True
      then obtain d cs' where cs: "cs = d # cs'" by (cases cs) auto
      from ns cs have "\<not> straddles cs' ys" by (auto simp: straddles_def split: if_splits)
      with "1.IH"(1) [OF Cons True "1.prems"(1)] cs
      have "lex_line (cs' @ ys) = lex_line cs' @ lex_line ys" by simp
      then show ?thesis
        unfolding L R using True cs nsp
        by (subst (1 2) lex_line.simps) simp
    next
      case False
      note ne = False
      show ?thesis
      proof (cases "op_char c")
        case True
        from ns have "\<not> straddles cs ys" by (rule straddles_tl)
        with "1.IH"(2) [OF Cons ne True "1.prems"(1)]
        have "lex_line (cs @ ys) = lex_line cs @ lex_line ys" .
        then show ?thesis
          unfolding L R using True ne es nsp
          by (subst (1 2) lex_line.simps) simp
      next
        case False
        define q where "q = word_end (c # cs)"
        from ns have nq: "\<not> straddles q ys" unfolding q_def by (rule straddles_word_end)
        have IH: "lex_line (q @ ys) = lex_line q @ lex_line ys"
          using "1.IH"(3) [OF Cons ne False q_def "1.prems"(1) nq] .
        have we: "word_end (c # cs @ ys) = (if q = [] then ys else q @ ys)"
          using word_end_append [OF "1.prems"(1) ns] q_def by simp
        have lq: "length q \<le> length (c # cs)" unfolding q_def by (rule word_end_le)
        have A: "lex_line (c # cs) = push_word (take (length (c # cs) - length q) (c # cs)) (lex_line q)"
          using False ne nsp q_def by (subst lex_line.simps) (simp add: Let_def)
        have B: "lex_line (c # cs @ ys) =
           push_word (take (length (c # cs @ ys) - length (word_end (c # cs @ ys))) (c # cs @ ys))
             (lex_line (word_end (c # cs @ ys)))"
          using False ne es nsp by (subst lex_line.simps) (simp add: Let_def)
        show ?thesis
        proof (cases "q = []")
          case True
          with A B we show ?thesis unfolding L R
            by (simp add: push_word_def lex_line_Nil)
        next
          case False
          have "take (length (c # cs) - length q) ((c # cs) @ ys) =
                take (length (c # cs) - length q) (c # cs)"
            by (simp only: take_append) simp
          then have T: "take (Suc (length cs) - length q) (c # cs @ ys) =
                take (Suc (length cs) - length q) (c # cs)"
            by (simp only: append_Cons length_Cons)
          from False A B we IH lq show ?thesis unfolding L R
            by (simp add: push_word_append T)
        qed
      qed
    qed
  qed
qed

lemma lex_line_op_char:
  "op_char c \<Longrightarrow> \<not> err_start (c # p) \<Longrightarrow> lex_line (c # p) = [c] # lex_line p"
  by (subst lex_line.simps) (auto simp: op_char_def isspace_def)

lemma lex_line_err: "lex_line (CHR ''2'' # CHR ''>'' # p) = ''2>'' # lex_line p"
  by (subst lex_line.simps) (simp add: isspace_def)

lemma lex_line_word:
  assumes "w \<noteq> []" "\<forall>c\<in>set w. \<not> isspace c \<and> \<not> op_char c"
  shows "lex_line w = [w]"
proof -
  from assms(2) have we: "word_end w = []"
  proof (induction w rule: word_end.induct)
    case 1
    show ?case by simp
  next
    case (2 c cs)
    then have "\<not> err_start (c # cs)" by (cases cs) (auto simp: op_char_def)
    with 2 show ?case by simp
  qed
  from assms obtain c cs where w: "w = c # cs" by (cases w) auto
  with assms have dw: "dropWhile isspace w = c # cs" by simp
  from assms w have ne: "\<not> err_start (c # cs)" by (cases cs) (auto simp: op_char_def)
  from assms w have no: "\<not> op_char c" by simp
  show ?thesis
    using dw ne no we w
    by (subst lex_line.simps) (simp add: push_word_def lex_line_Nil)
qed

text \<open>
  Claim C8. Whitespace next to an operator does not change the tokens: \<open>a<b\<close> and
  \<open>a < b\<close> both give the words \<open>a\<close>, \<open>b\<close> around the operator \<open><\<close>. In general, whatever
  stands before (\<open>xs\<close>) and after (\<open>ys\<close>), and with any whitespace \<open>ws1\<close>, \<open>ws2\<close> or none
  around it, \<open><\<close>, \<open>|\<close> and \<open>2>\<close> are tokens of their own between the tokens of \<open>xs\<close> and those
  of \<open>ys\<close>; so is \<open>>\<close>, unless it directly follows a \<open>2\<close>, where the two characters are the
  operator \<open>2>\<close>; and a word directly followed by \<open>2>\<close> ends there.
\<close>

theorem tokenize_operator_adjacency:
  assumes "\<forall>c\<in>set ws1. isspace c" and "\<forall>c\<in>set ws2. isspace c"
  shows "lex_line ''a<b'' = [''a'', ''<'', ''b''] \<and> lex_line ''a < b'' = [''a'', ''<'', ''b''] \<and>
         lex_line (xs @ ws1 @ ''<'' @ ws2 @ ys) = lex_line xs @ [''<''] @ lex_line ys \<and>
         lex_line (xs @ ws1 @ ''|'' @ ws2 @ ys) = lex_line xs @ [''|''] @ lex_line ys \<and>
         lex_line (xs @ ws1 @ ''2>'' @ ws2 @ ys) = lex_line xs @ [''2>''] @ lex_line ys \<and>
         (ws1 \<noteq> [] \<or> xs = [] \<or> last xs \<noteq> CHR ''2'' \<longrightarrow>
            lex_line (xs @ ws1 @ ''>'' @ ws2 @ ys) = lex_line xs @ [''>''] @ lex_line ys) \<and>
         (xs \<noteq> [] \<and> (\<forall>c\<in>set xs. \<not> isspace c \<and> \<not> op_char c) \<longrightarrow>
            lex_line (xs @ ''2>'' @ ys) = xs # ''2>'' # lex_line ys)"
proof -
  have sp: "stops (ws1 @ c # r)" if "op_char c \<or> err_start (c # r)" for c r
    using that assms(1) by (cases ws1) (auto simp: stops_def)
  have st: "\<not> straddles xs (ws1 @ c # r)"
    if "c \<noteq> CHR ''>'' \<or> ws1 \<noteq> [] \<or> xs = [] \<or> last xs \<noteq> CHR ''2''" for c r
  proof (cases ws1)
    case Nil
    with that show ?thesis by (auto simp: straddles_def)
  next
    case (Cons a as)
    with assms(1) have "isspace a" by simp
    then have "a \<noteq> CHR ''>''" by (auto simp: isspace_def)
    with Cons show ?thesis by (simp add: straddles_def)
  qed
  have one: "lex_line (xs @ ws1 @ [c] @ ws2 @ ys) = lex_line xs @ [[c]] @ lex_line ys"
    if c: "op_char c" and s: "c \<noteq> CHR ''>'' \<or> ws1 \<noteq> [] \<or> xs = [] \<or> last xs \<noteq> CHR ''2''" for c
  proof -
    from c have ne: "\<not> err_start (c # ws2 @ ys)"
      by (cases "ws2 @ ys") (auto simp: op_char_def)
    have "lex_line (xs @ ws1 @ c # ws2 @ ys) = lex_line xs @ lex_line (ws1 @ c # ws2 @ ys)"
      using sp [of c "ws2 @ ys"] st [of c "ws2 @ ys"] c s by (intro lex_line_append) auto
    also have "lex_line (ws1 @ c # ws2 @ ys) = lex_line (c # ws2 @ ys)"
      using assms(1) by (rule lex_line_ws)
    also have "\<dots> = [c] # lex_line (ws2 @ ys)" using c ne by (rule lex_line_op_char)
    also have "lex_line (ws2 @ ys) = lex_line ys" using assms(2) by (rule lex_line_ws)
    finally show ?thesis by simp
  qed
  have two: "lex_line (xs @ ws1 @ ''2>'' @ ws2 @ ys) = lex_line xs @ [''2>''] @ lex_line ys"
  proof -
    have "lex_line (xs @ ws1 @ CHR ''2'' # CHR ''>'' # ws2 @ ys) =
          lex_line xs @ lex_line (ws1 @ CHR ''2'' # CHR ''>'' # ws2 @ ys)"
      using sp [of "CHR ''2''" "CHR ''>'' # ws2 @ ys"] st [of "CHR ''2''" "CHR ''>'' # ws2 @ ys"]
      by (intro lex_line_append) auto
    also have "lex_line (ws1 @ CHR ''2'' # CHR ''>'' # ws2 @ ys) =
               lex_line (CHR ''2'' # CHR ''>'' # ws2 @ ys)"
      using assms(1) by (rule lex_line_ws)
    also have "\<dots> = ''2>'' # lex_line (ws2 @ ys)" by (rule lex_line_err)
    also have "lex_line (ws2 @ ys) = lex_line ys" using assms(2) by (rule lex_line_ws)
    finally show ?thesis by simp
  qed
  have a: "lex_line ''a<b'' = [''a'', ''<'', ''b'']" by code_simp
  have b: "lex_line ''a < b'' = [''a'', ''<'', ''b'']" by code_simp
  have w: "lex_line (xs @ ''2>'' @ ys) = xs # ''2>'' # lex_line ys"
    if "xs \<noteq> []" "\<forall>c\<in>set xs. \<not> isspace c \<and> \<not> op_char c"
  proof -
    have "lex_line (xs @ ''2>'' @ ys) = lex_line xs @ lex_line (''2>'' @ ys)"
      by (intro lex_line_append) (auto simp: stops_def straddles_def)
    with lex_line_word [OF that] lex_line_err [of ys] show ?thesis by simp
  qed
  from one [of "CHR ''<''"] one [of "CHR ''|''"] one [of "CHR ''>''"] two a b w
  show ?thesis by (simp add: op_char_def)
qed

theorem tokenize_operator_adjacency_witness:
  "isspace (CHR '' '') \<and>
   lex_line (''cat x'' @ '' '' @ ''>'' @ ''  '' @ ''out'') = [''cat'', ''x'', ''>'', ''out''] \<and>
   lex_line (''cat x'' @ ''>'' @ ''out'') = [''cat'', ''x'', ''>'', ''out''] \<and>
   lex_line (''x'' @ ''2>'' @ ''e'') = [''x'', ''2>'', ''e'']"
proof -
  have a: "lex_line ''cat x'' = [''cat'', ''x'']" by code_simp
  have b: "lex_line ''out'' = [''out'']" by code_simp
  have c: "lex_line ''e'' = [''e'']" by code_simp
  have d: "lex_line ''x'' = [''x'']" by code_simp
  from tokenize_operator_adjacency [of "'' ''" "''  ''" "''cat x''" "''out''"]
    tokenize_operator_adjacency [of "[]" "[]" "''cat x''" "''out''"]
    tokenize_operator_adjacency [of "[]" "[]" "''x''" "''e''"] a b c d
  show ?thesis by (simp add: isspace_def op_char_def)
qed

definition is_op :: "string \<Rightarrow> bool" where
  "is_op t \<longleftrightarrow> t = ''<'' \<or> t = ''>'' \<or> t = ''2>'' \<or> t = ''|''"

definition is_redir :: "string \<Rightarrow> bool" where
  "is_redir t \<longleftrightarrow> t = ''<'' \<or> t = ''>'' \<or> t = ''2>''"

record cmd =
  arg_words :: "string list"
  infile :: "string option"
  outfile :: "string option"
  errfile :: "string option"

definition no_cmd :: cmd where
  "no_cmd = \<lparr>arg_words = [], infile = None, outfile = None, errfile = None\<rparr>"

fun adjacent_pipes :: "string list \<Rightarrow> bool" where
  "adjacent_pipes (a # b # ts) = ((a = ''|'' \<and> b = ''|'') \<or> adjacent_pipes (b # ts))"
| "adjacent_pipes _ = False"

fun scan_redirs :: "bool \<Rightarrow> string list \<Rightarrow> cmd \<Rightarrow> string + cmd" where
  "scan_redirs fin [] c = Inr c"
| "scan_redirs fin (t # ts) c =
     (if t = ''<'' then
        (case ts of
           [] \<Rightarrow> Inl ''Input file not specified.''
         | f # ts' \<Rightarrow>
             if is_op f then Inl ''Input file not specified.''
             else scan_redirs fin ts' (c\<lparr>infile := Some f\<rparr>))
      else if t = ''>'' then
        (case ts of
           [] \<Rightarrow> Inl (if fin then ''Output file not specified after redirection.''
                      else ''Output file not specified.'')
         | f # ts' \<Rightarrow>
             if is_op f then Inl (if fin then ''Output file not specified after redirection.''
                                  else ''Output file not specified.'')
             else scan_redirs fin ts' (c\<lparr>outfile := Some f\<rparr>))
      else if t = ''2>'' then
        (case ts of
           [] \<Rightarrow> Inl ''Error output file not specified.''
         | f # ts' \<Rightarrow>
             if is_op f then Inl ''Error output file not specified.''
             else scan_redirs fin ts' (c\<lparr>errfile := Some f\<rparr>))
      else scan_redirs fin ts c)"

fun argv_words :: "string list \<Rightarrow> string list" where
  "argv_words [] = []"
| "argv_words (t # ts) =
     (if t = ''<'' \<or> t = ''>'' \<or> t = ''2>'' then argv_words (drop 1 ts)
      else if t = ''|'' then argv_words ts
      else t # argv_words ts)"

function parse_segments :: "bool \<Rightarrow> string list \<Rightarrow> string + cmd list" where
  "parse_segments multi toks =
     (let seg = takeWhile (\<lambda>t. t \<noteq> ''|'') toks;
          rest = dropWhile (\<lambda>t. t \<noteq> ''|'') toks
      in case scan_redirs (multi \<and> rest = []) seg no_cmd of
           Inl e \<Rightarrow> Inl e
         | Inr c \<Rightarrow>
             if argv_words seg = [] then Inl ''Command missing after pipe.''
             else if rest = [] then Inr [c\<lparr>arg_words := argv_words seg\<rparr>]
             else (case parse_segments multi (tl rest) of
                     Inl e \<Rightarrow> Inl e
                   | Inr cs \<Rightarrow> Inr (c\<lparr>arg_words := argv_words seg\<rparr> # cs)))"
  by pat_completeness auto
termination
proof (relation "measure (\<lambda>(multi, toks). length toks)", goal_cases)
  case 1
  show ?case by simp
next
  case (2 multi toks seg rest c)
  then have "length (tl rest) < length rest" by (cases rest) auto
  moreover from 2 have "length rest \<le> length toks" by (simp add: length_dropWhile_le)
  ultimately show ?case by simp
qed

declare parse_segments.simps [simp del]

datatype outcome = Blank | Syntax string | Parsed "cmd list"

definition parse_tokens :: "string list \<Rightarrow> outcome" where
  "parse_tokens toks =
     (if toks = [] then Blank
      else if hd toks = ''|'' then Syntax ''Command missing after pipe.''
      else if last toks = ''|'' then Syntax ''Command missing after pipe.''
      else if adjacent_pipes toks then Syntax ''Empty command between pipes.''
      else (case parse_segments (1 + length (filter (\<lambda>t. t = ''|'') toks) > 1) toks of
              Inl e \<Rightarrow> Syntax e
            | Inr cs \<Rightarrow> Parsed cs))"

definition parse_text :: "string \<Rightarrow> outcome" where
  "parse_text line = parse_tokens (lex_line line)"

fun segments :: "string list \<Rightarrow> string list list" where
  "segments [] = [[]]"
| "segments (t # ts) =
     (if t = ''|'' then [] # segments ts
      else (t # hd (segments ts)) # tl (segments ts))"

lemma segments_ne [simp]: "segments ts \<noteq> []"
  by (induction ts) auto

lemma length_segments: "length (segments ts) = Suc (length (filter (\<lambda>t. t = ''|'') ts))"
  by (induction ts) auto

lemma hd_segments: "hd (segments ts) = takeWhile (\<lambda>t. t \<noteq> ''|'') ts"
  by (induction ts) auto

lemma tl_segments:
  "tl (segments ts) =
     (if dropWhile (\<lambda>t. t \<noteq> ''|'') ts = [] then []
      else segments (tl (dropWhile (\<lambda>t. t \<noteq> ''|'') ts)))"
  by (induction ts) auto

lemma segments_unfold:
  "segments ts = takeWhile (\<lambda>t. t \<noteq> ''|'') ts #
     (if dropWhile (\<lambda>t. t \<noteq> ''|'') ts = [] then []
      else segments (tl (dropWhile (\<lambda>t. t \<noteq> ''|'') ts)))"
  using hd_segments [of ts] tl_segments [of ts] segments_ne [of ts]
  by (cases "segments ts") auto

lemma segments_no_pipe: "s \<in> set (segments ts) \<Longrightarrow> ''|'' \<notin> set s"
proof (induction ts arbitrary: s)
  case Nil
  then show ?case by simp
next
  case (Cons t ts)
  show ?case
  proof (cases "t = ''|''")
    case True
    with Cons show ?thesis by auto
  next
    case False
    from segments_ne [of ts] obtain a as where as: "segments ts = a # as"
      by (cases "segments ts") auto
    with Cons False show ?thesis by auto
  qed
qed

text \<open>Result of one segment: redirections, then the argument list, then the empty check.\<close>

definition seg_result :: "bool \<Rightarrow> string list \<Rightarrow> string + cmd" where
  "seg_result fin seg =
     (case scan_redirs fin seg no_cmd of
        Inl e \<Rightarrow> Inl e
      | Inr c \<Rightarrow>
          if argv_words seg = [] then Inl ''Command missing after pipe.''
          else Inr (c\<lparr>arg_words := argv_words seg\<rparr>))"

fun parse_segs :: "bool \<Rightarrow> string list list \<Rightarrow> string + cmd list" where
  "parse_segs multi [] = Inr []"
| "parse_segs multi (seg # segs) =
     (case seg_result (multi \<and> segs = []) seg of
        Inl e \<Rightarrow> Inl e
      | Inr c \<Rightarrow>
          (case parse_segs multi segs of
             Inl e \<Rightarrow> Inl e
           | Inr cs \<Rightarrow> Inr (c # cs)))"

lemma parse_segments_segs: "parse_segments multi ts = parse_segs multi (segments ts)"
proof (induction multi ts rule: parse_segments.induct)
  case (1 multi toks)
  define seg where "seg = takeWhile (\<lambda>t. t \<noteq> ''|'') toks"
  define rest where "rest = dropWhile (\<lambda>t. t \<noteq> ''|'') toks"
  define more where "more = (if rest = [] then [] else segments (tl rest))"
  have S: "segments toks = seg # more"
    unfolding seg_def rest_def more_def by (rule segments_unfold)
  have M: "more = [] \<longleftrightarrow> rest = []" by (simp add: more_def)
  have U: "parse_segments multi toks =
     (case scan_redirs (multi \<and> rest = []) seg no_cmd of
           Inl e \<Rightarrow> Inl e
         | Inr c \<Rightarrow>
             if argv_words seg = [] then Inl ''Command missing after pipe.''
             else if rest = [] then Inr [c\<lparr>arg_words := argv_words seg\<rparr>]
             else (case parse_segments multi (tl rest) of
                     Inl e \<Rightarrow> Inl e
                   | Inr cs \<Rightarrow> Inr (c\<lparr>arg_words := argv_words seg\<rparr> # cs)))"
    unfolding seg_def rest_def by (subst parse_segments.simps) (simp only: Let_def)
  show ?case
  proof (cases "scan_redirs (multi \<and> rest = []) seg no_cmd")
    case (Inl e)
    then show ?thesis by (simp add: U S M seg_result_def)
  next
    case (Inr c)
    show ?thesis
    proof (cases "argv_words seg = []")
      case True
      with Inr show ?thesis by (simp add: U S M seg_result_def)
    next
      case False
      note ne = False
      show ?thesis
      proof (cases "rest = []")
        case True
        with Inr ne show ?thesis by (simp add: U S M seg_result_def more_def)
      next
        case False
        with Inr ne "1.IH" [OF seg_def rest_def Inr]
        have "parse_segments multi (tl rest) = parse_segs multi more" by (simp add: more_def)
        with Inr ne False show ?thesis by (simp add: U S M seg_result_def)
      qed
    qed
  qed
qed

lemma is_redir_is_op: "is_redir t \<Longrightarrow> is_op t"
  by (auto simp: is_redir_def is_op_def)

text \<open>The first redirection operator of a segment, left to right, that has no file name.\<close>

fun bad_redir :: "string list \<Rightarrow> string option" where
  "bad_redir [] = None"
| "bad_redir (t # ts) =
     (if is_redir t then
        (case ts of [] \<Rightarrow> Some t | f # ts' \<Rightarrow> if is_op f then Some t else bad_redir ts')
      else bad_redir ts)"

definition redir_msg :: "bool \<Rightarrow> string \<Rightarrow> string" where
  "redir_msg fin t =
     (if t = ''<'' then ''Input file not specified.''
      else if t = ''>'' then
        (if fin then ''Output file not specified after redirection.''
         else ''Output file not specified.'')
      else ''Error output file not specified.'')"

text \<open>The token after the last occurrence of an operator in a segment.\<close>

fun last_target :: "string \<Rightarrow> string list \<Rightarrow> string option" where
  "last_target opr (t # f # ts) =
     (case last_target opr (f # ts) of
        Some g \<Rightarrow> Some g
      | None \<Rightarrow> if t = opr then Some f else None)"
| "last_target opr _ = None"

lemma last_target_skip: "f \<noteq> opr \<Longrightarrow> last_target opr (f # ts) = last_target opr ts"
  by (cases ts) (auto split: option.splits)

definition set_target :: "string option \<Rightarrow> string option \<Rightarrow> string option" where
  "set_target new old = (case new of None \<Rightarrow> old | Some f \<Rightarrow> Some f)"

lemma scan_redirs_ok:
  "bad_redir seg = None \<Longrightarrow>
   scan_redirs fin seg c =
     Inr (c\<lparr>infile := set_target (last_target ''<'' seg) (infile c),
            outfile := set_target (last_target ''>'' seg) (outfile c),
            errfile := set_target (last_target ''2>'' seg) (errfile c)\<rparr>)"
proof (induction fin seg c rule: scan_redirs.induct)
  case (1 fin c)
  then show ?case by (simp add: set_target_def)
next
  case (2 fin t ts c)
  show ?case
  proof (cases "is_redir t")
    case False
    with 2 show ?thesis
      by (simp add: is_redir_def last_target_skip)
  next
    case True
    with "2.prems" obtain f ts' where ts: "ts = f # ts'" and f: "\<not> is_op f" and b: "bad_redir ts' = None"
      by (cases ts) (auto split: if_splits)
    from f have fn: "f \<noteq> ''<''" "f \<noteq> ''>''" "f \<noteq> ''2>''" by (auto simp: is_op_def)
    have sk: "last_target opr (t # f # ts') = last_target opr ts'"
      if "t \<noteq> opr" "f \<noteq> opr" for opr
      using that last_target_skip [of t opr "f # ts'"] last_target_skip [of f opr ts'] by simp
    have hit: "last_target t (t # f # ts') =
        (case last_target t ts' of Some g \<Rightarrow> Some g | None \<Rightarrow> Some f)"
      if "f \<noteq> t"
      using that last_target_skip [of f t ts'] by simp
    from True consider "t = ''<''" | "t = ''>''" | "t = ''2>''" by (auto simp: is_redir_def)
    then show ?thesis
    proof cases
      case 1
      have "scan_redirs fin (t # ts) c = scan_redirs fin ts' (c\<lparr>infile := Some f\<rparr>)"
        using 1 ts f by simp
      also note "2.IH"(1) [OF 1 ts f b]
      finally show ?thesis
        using 1 fn hit sk [of "''>''"] sk [of "''2>''"] unfolding ts
        by (simp del: last_target.simps add: set_target_def split: option.splits)
    next
      case 2
      have "scan_redirs fin (t # ts) c = scan_redirs fin ts' (c\<lparr>outfile := Some f\<rparr>)"
        using 2 ts f by simp
      also note "2.IH"(2) [OF _ 2 ts f b]
      finally show ?thesis
        using 2 fn hit sk [of "''<''"] sk [of "''2>''"] unfolding ts
        by (simp del: last_target.simps add: set_target_def split: option.splits)
    next
      case 3
      have "scan_redirs fin (t # ts) c = scan_redirs fin ts' (c\<lparr>errfile := Some f\<rparr>)"
        using 3 ts f by simp
      also note "2.IH"(3) [OF _ _ 3 ts f b]
      finally show ?thesis
        using 3 fn hit sk [of "''<''"] sk [of "''>''"] unfolding ts
        by (simp del: last_target.simps add: set_target_def split: option.splits)
    qed
  qed
qed

lemma scan_redirs_bad:
  "bad_redir seg = Some t \<Longrightarrow> scan_redirs fin seg c = Inl (redir_msg fin t)"
proof (induction fin seg c rule: scan_redirs.induct)
  case (1 fin c)
  then show ?case by simp
next
  case (2 fin u ts c)
  show ?case
  proof (cases "is_redir u")
    case False
    with 2 show ?thesis by (simp add: is_redir_def)
  next
    case True
    note r = True
    show ?thesis
    proof (cases "\<exists>f ts'. ts = f # ts' \<and> \<not> is_op f")
      case False
      with "2.prems" r have "t = u" by (cases ts) (auto split: if_splits)
      with False r show ?thesis
        by (cases ts) (auto simp: redir_msg_def is_redir_def)
    next
      case True
      then obtain f ts' where ts: "ts = f # ts'" and f: "\<not> is_op f" by blast
      with "2.prems" r have b: "bad_redir ts' = Some t" by simp
      from r consider "u = ''<''" | "u = ''>''" | "u = ''2>''" by (auto simp: is_redir_def)
      then show ?thesis
      proof cases
        case 1
        with "2.IH"(1) [OF 1 ts f b] ts f show ?thesis by simp
      next
        case 2
        with "2.IH"(2) [OF _ 2 ts f b] ts f show ?thesis by simp
      next
        case 3
        with "2.IH"(3) [OF _ _ 3 ts f b] ts f show ?thesis by simp
      qed
    qed
  qed
qed

lemma bad_redir_is_redir: "bad_redir seg = Some t \<Longrightarrow> is_redir t"
  by (induction seg rule: bad_redir.induct) (auto split: if_splits list.splits)

definition redirs_ok :: "string list \<Rightarrow> bool" where
  "redirs_ok seg \<longleftrightarrow>
     (\<forall>j<length seg. is_redir (seg ! j) \<longrightarrow> Suc j < length seg \<and> \<not> is_op (seg ! Suc j))"

lemma redirs_ok_Nil: "redirs_ok []"
  by (simp add: redirs_ok_def)

lemma redirs_ok_word: "\<not> is_redir t \<Longrightarrow> redirs_ok (t # ts) \<longleftrightarrow> redirs_ok ts"
  by (simp add: redirs_ok_def All_less_Suc2)

lemma redirs_ok_last: "is_redir t \<Longrightarrow> \<not> redirs_ok [t]"
  by (simp add: redirs_ok_def)

lemma redirs_ok_redir:
  "is_redir t \<Longrightarrow> redirs_ok (t # f # ts) \<longleftrightarrow> \<not> is_op f \<and> redirs_ok ts"
  using is_redir_is_op [of f] by (auto simp add: redirs_ok_def All_less_Suc2)

lemma bad_redir_None: "bad_redir seg = None \<longleftrightarrow> redirs_ok seg"
proof (induction seg rule: bad_redir.induct)
  case 1
  show ?case by (simp add: redirs_ok_Nil)
next
  case (2 t ts)
  show ?case
  proof (cases "is_redir t")
    case False
    with 2 show ?thesis by (simp add: redirs_ok_word)
  next
    case True
    show ?thesis
    proof (cases ts)
      case Nil
      with True show ?thesis by (simp add: redirs_ok_last)
    next
      case (Cons f ts')
      with True 2 show ?thesis by (simp add: redirs_ok_redir)
    qed
  qed
qed

lemma adjacent_pipes_iff:
  "adjacent_pipes ts \<longleftrightarrow> (\<exists>i. Suc i < length ts \<and> ts ! i = ''|'' \<and> ts ! Suc i = ''|'')"
proof (induction ts rule: adjacent_pipes.induct)
  case (1 a b ts)
  have "(\<exists>i. Suc i < length (a # b # ts) \<and> (a # b # ts) ! i = ''|'' \<and> (a # b # ts) ! Suc i = ''|'')
    \<longleftrightarrow> (a = ''|'' \<and> b = ''|'') \<or> (\<exists>i. Suc i < length (b # ts) \<and> (b # ts) ! i = ''|'' \<and> (b # ts) ! Suc i = ''|'')"
    (is "?L \<longleftrightarrow> ?A \<or> ?R")
  proof
    assume ?L
    then obtain i where i: "Suc i < length (a # b # ts)" "(a # b # ts) ! i = ''|''" "(a # b # ts) ! Suc i = ''|''"
      by blast
    show "?A \<or> ?R"
    proof (cases i)
      case 0
      with i show ?thesis by simp
    next
      case (Suc k)
      with i have "Suc k < length (b # ts) \<and> (b # ts) ! k = ''|'' \<and> (b # ts) ! Suc k = ''|''" by simp
      then show ?thesis by blast
    qed
  next
    assume "?A \<or> ?R"
    then show ?L
    proof
      assume ?A
      then have "Suc 0 < length (a # b # ts) \<and> (a # b # ts) ! 0 = ''|'' \<and> (a # b # ts) ! Suc 0 = ''|''" by simp
      then show ?L by blast
    next
      assume ?R
      then obtain k where "Suc k < length (b # ts) \<and> (b # ts) ! k = ''|'' \<and> (b # ts) ! Suc k = ''|''" by blast
      then have "Suc (Suc k) < length (a # b # ts) \<and> (a # b # ts) ! Suc k = ''|'' \<and> (a # b # ts) ! Suc (Suc k) = ''|''" by simp
      then show ?L by blast
    qed
  qed
  with 1 show ?case by simp
qed simp_all

definition seg_good :: "string list \<Rightarrow> bool" where
  "seg_good seg \<longleftrightarrow> redirs_ok seg \<and> argv_words seg \<noteq> []"

definition seg_cmd :: "string list \<Rightarrow> cmd" where
  "seg_cmd seg =
     \<lparr>arg_words = argv_words seg, infile = last_target ''<'' seg,
      outfile = last_target ''>'' seg, errfile = last_target ''2>'' seg\<rparr>"

definition seg_msg :: "bool \<Rightarrow> string list \<Rightarrow> string" where
  "seg_msg fin seg =
     (case bad_redir seg of
        Some t \<Rightarrow> redir_msg fin t
      | None \<Rightarrow> ''Command missing after pipe.'')"

lemma seg_result_good: "seg_good seg \<Longrightarrow> seg_result fin seg = Inr (seg_cmd seg)"
  using scan_redirs_ok [of seg fin no_cmd]
  by (simp add: seg_good_def bad_redir_None [symmetric] seg_result_def seg_cmd_def no_cmd_def
      set_target_def split: option.splits)

lemma seg_result_bad: "\<not> seg_good seg \<Longrightarrow> seg_result fin seg = Inl (seg_msg fin seg)"
proof (cases "bad_redir seg")
  case None
  assume "\<not> seg_good seg"
  with None have "argv_words seg = []" by (simp add: seg_good_def bad_redir_None)
  with None scan_redirs_ok [of seg fin no_cmd] show ?thesis
    by (simp add: seg_result_def seg_msg_def)
next
  case (Some t)
  with scan_redirs_bad [of seg t fin no_cmd] show ?thesis
    by (simp add: seg_result_def seg_msg_def)
qed

lemma parse_segs_Inr:
  "parse_segs multi segs = Inr cs \<longleftrightarrow> (\<forall>s\<in>set segs. seg_good s) \<and> cs = map seg_cmd segs"
proof (induction segs arbitrary: cs)
  case Nil
  show ?case by auto
next
  case (Cons s segs)
  show ?case
  proof (cases "seg_good s")
    case True
    with Cons show ?thesis
      by (cases "parse_segs multi segs") (auto simp: seg_result_good)
  next
    case False
    then show ?thesis by (simp add: seg_result_bad)
  qed
qed

lemma parse_segs_Inl:
  "parse_segs multi segs = Inl e \<longleftrightarrow>
     (\<exists>i<length segs. (\<forall>j<i. seg_good (segs ! j)) \<and> \<not> seg_good (segs ! i) \<and>
        e = seg_msg (multi \<and> Suc i = length segs) (segs ! i))"
proof (induction segs)
  case Nil
  show ?case by simp
next
  case (Cons s segs)
  show ?case
  proof (cases "seg_good s")
    case False
    have "(\<exists>i<Suc (length segs). (\<forall>j<i. seg_good ((s # segs) ! j)) \<and> \<not> seg_good ((s # segs) ! i) \<and>
        e = seg_msg (multi \<and> Suc i = Suc (length segs)) ((s # segs) ! i))
      \<longleftrightarrow> e = seg_msg (multi \<and> segs = []) s"
      (is "?L \<longleftrightarrow> ?R")
    proof
      assume ?L
      then obtain i where i: "i < Suc (length segs)" "\<forall>j<i. seg_good ((s # segs) ! j)"
        "e = seg_msg (multi \<and> Suc i = Suc (length segs)) ((s # segs) ! i)" by blast
      from i(2) False have "i = 0" by (cases i) auto
      with i(3) show ?R by auto
    next
      assume ?R
      with False have "0 < Suc (length segs) \<and> (\<forall>j<0. seg_good ((s # segs) ! j)) \<and>
        \<not> seg_good ((s # segs) ! 0) \<and> e = seg_msg (multi \<and> Suc 0 = Suc (length segs)) ((s # segs) ! 0)"
        by auto
      then show ?L by blast
    qed
    with False show ?thesis by (auto simp: seg_result_bad)
  next
    case True
    have "(\<exists>i<Suc (length segs). (\<forall>j<i. seg_good ((s # segs) ! j)) \<and> \<not> seg_good ((s # segs) ! i) \<and>
        e = seg_msg (multi \<and> Suc i = Suc (length segs)) ((s # segs) ! i))
      \<longleftrightarrow> (\<exists>i<length segs. (\<forall>j<i. seg_good (segs ! j)) \<and> \<not> seg_good (segs ! i) \<and>
        e = seg_msg (multi \<and> Suc i = length segs) (segs ! i))"
      using True by (simp add: Ex_less_Suc2 All_less_Suc2)
    with True Cons show ?thesis
      by (cases "parse_segs multi segs") (auto simp: seg_result_good)
  qed
qed

lemma hd_segments_Nil: "hd (segments ts) = [] \<longleftrightarrow> ts = [] \<or> hd ts = ''|''"
  by (cases ts) auto

lemma adjacent_pipes_Cons:
  "adjacent_pipes (t # ts) \<longleftrightarrow> (t = ''|'' \<and> ts \<noteq> [] \<and> hd ts = ''|'') \<or> adjacent_pipes ts"
  by (cases ts) auto

lemma tl_segments_Nil:
  "[] \<in> set (tl (segments ts)) \<longleftrightarrow> (ts \<noteq> [] \<and> last ts = ''|'') \<or> adjacent_pipes ts"
proof (induction ts)
  case Nil
  show ?case by simp
next
  case (Cons t ts)
  obtain a as where as: "segments ts = a # as" using segments_ne [of ts] by (cases "segments ts") auto
  with hd_segments_Nil [of ts] have a: "a = [] \<longleftrightarrow> ts = [] \<or> hd ts = ''|''" by simp
  from as Cons have b: "[] \<in> set as \<longleftrightarrow> (ts \<noteq> [] \<and> last ts = ''|'') \<or> adjacent_pipes ts" by simp
  show ?case
  proof (cases "t = ''|''")
    case True
    with as a b show ?thesis by (auto simp: adjacent_pipes_Cons)
  next
    case False
    with as b show ?thesis by (auto simp: adjacent_pipes_Cons)
  qed
qed

lemma empty_segment_iff:
  "[] \<in> set (segments ts) \<longleftrightarrow>
     ts = [] \<or> hd ts = ''|'' \<or> last ts = ''|'' \<or> adjacent_pipes ts"
proof -
  obtain a as where as: "segments ts = a # as" using segments_ne [of ts] by (cases "segments ts") auto
  with hd_segments_Nil [of ts] tl_segments_Nil [of ts] show ?thesis by auto
qed

lemma seg_good_ne: "seg_good s \<Longrightarrow> s \<noteq> []"
  by (auto simp: seg_good_def)

lemma parse_tokens_Parsed:
  "parse_tokens ts = Parsed cs \<longleftrightarrow>
     (\<forall>s\<in>set (segments ts). seg_good s) \<and> cs = map seg_cmd (segments ts)"
proof (cases "ts = [] \<or> hd ts = ''|'' \<or> last ts = ''|'' \<or> adjacent_pipes ts")
  case True
  then have "[] \<in> set (segments ts)" by (simp add: empty_segment_iff)
  then have "\<not> (\<forall>s\<in>set (segments ts). seg_good s)" using seg_good_ne by blast
  with True show ?thesis by (auto simp: parse_tokens_def)
next
  case False
  then show ?thesis
    using parse_segs_Inr [of "1 + length (filter (\<lambda>t. t = ''|'') ts) > 1" "segments ts" cs]
    by (auto simp: parse_tokens_def parse_segments_segs split: sum.splits)
qed

lemma last_target_none: "opr \<notin> set seg \<Longrightarrow> last_target opr seg = None"
  by (induction opr seg rule: last_target.induct) auto

lemma last_target_last:
  "Suc j < length seg \<Longrightarrow> seg ! j = opr \<Longrightarrow>
   (\<forall>k. j < k \<and> k < length seg \<longrightarrow> seg ! k \<noteq> opr) \<Longrightarrow>
   last_target opr seg = Some (seg ! Suc j)"
proof (induction opr seg arbitrary: j rule: last_target.induct)
  case (1 opr t f ts)
  show ?case
  proof (cases j)
    case 0
    have "opr \<notin> set (f # ts)"
    proof
      assume "opr \<in> set (f # ts)"
      then obtain k where k: "k < length (f # ts)" "(f # ts) ! k = opr"
        unfolding in_set_conv_nth by blast
      from 1(4) 0 have "0 < Suc k \<and> Suc k < length (t # f # ts) \<longrightarrow> (t # f # ts) ! Suc k \<noteq> opr"
        by blast
      with k show False by simp
    qed
    with 0 1(3) last_target_none [of opr "f # ts"] show ?thesis by simp
  next
    case (Suc m)
    with 1(2) have a: "Suc m < length (f # ts)" by simp
    from Suc 1(3) have b: "(f # ts) ! m = opr" by simp
    from Suc 1(4) have c: "\<forall>k. m < k \<and> k < length (f # ts) \<longrightarrow> (f # ts) ! k \<noteq> opr"
      by auto
    from "1.IH" [OF a b c] Suc show ?thesis by simp
  qed
qed simp_all

lemma redir_msg_ne: "redir_msg fin t \<noteq> ''Command missing after pipe.''"
  "redir_msg fin t \<noteq> ''Empty command between pipes.''"
  by (simp_all add: redir_msg_def)

lemma seg_msg_missing:
  "\<not> seg_good s \<Longrightarrow>
   seg_msg fin s = ''Command missing after pipe.'' \<longleftrightarrow> redirs_ok s \<and> argv_words s = []"
  using redir_msg_ne(1) [of fin]
  by (cases "bad_redir s") (auto simp: seg_msg_def seg_good_def bad_redir_None [symmetric])

lemma seg_msg_not_between: "seg_msg fin s \<noteq> ''Empty command between pipes.''"
  using redir_msg_ne(2) [of fin] by (cases "bad_redir s") (auto simp: seg_msg_def)

lemma parse_tokens_Syntax:
  "parse_tokens ts = Syntax e \<longleftrightarrow>
     ts \<noteq> [] \<and>
     (if hd ts = ''|'' \<or> last ts = ''|'' then e = ''Command missing after pipe.''
      else if adjacent_pipes ts then e = ''Empty command between pipes.''
      else (\<exists>i<length (segments ts). (\<forall>j<i. seg_good (segments ts ! j)) \<and>
              \<not> seg_good (segments ts ! i) \<and>
              e = seg_msg (Suc 0 < length (segments ts) \<and> Suc i = length (segments ts))
                    (segments ts ! i)))"
  using parse_segs_Inl [of "Suc 0 < length (segments ts)" "segments ts" e]
  by (auto simp: parse_tokens_def parse_segments_segs length_segments split: sum.splits)

theorem missing_command_messages:
  "(parse_tokens ts = Syntax ''Command missing after pipe.'' \<longleftrightarrow>
      ts \<noteq> [] \<and>
      (hd ts = ''|'' \<or> last ts = ''|'' \<or>
       (\<not> (\<exists>n. Suc n < length ts \<and> ts ! n = ''|'' \<and> ts ! Suc n = ''|'') \<and>
        (\<exists>i<length (segments ts).
            (\<forall>j<i. redirs_ok (segments ts ! j) \<and> argv_words (segments ts ! j) \<noteq> []) \<and>
            redirs_ok (segments ts ! i) \<and> argv_words (segments ts ! i) = [])))) \<and>
   (parse_tokens ts = Syntax ''Empty command between pipes.'' \<longleftrightarrow>
      ts \<noteq> [] \<and> hd ts \<noteq> ''|'' \<and> last ts \<noteq> ''|'' \<and>
      (\<exists>n. Suc n < length ts \<and> ts ! n = ''|'' \<and> ts ! Suc n = ''|''))"
proof -
  have A: "(\<exists>i<length (segments ts). (\<forall>j<i. seg_good (segments ts ! j)) \<and>
              \<not> seg_good (segments ts ! i) \<and>
              ''Command missing after pipe.'' =
                seg_msg (Suc 0 < length (segments ts) \<and> Suc i = length (segments ts))
                    (segments ts ! i))
        \<longleftrightarrow> (\<exists>i<length (segments ts).
            (\<forall>j<i. redirs_ok (segments ts ! j) \<and> argv_words (segments ts ! j) \<noteq> []) \<and>
            redirs_ok (segments ts ! i) \<and> argv_words (segments ts ! i) = [])"
    (is "?L \<longleftrightarrow> ?R")
  proof
    assume ?L
    then obtain i where i: "i < length (segments ts)" "\<forall>j<i. seg_good (segments ts ! j)"
      "\<not> seg_good (segments ts ! i)"
      "''Command missing after pipe.'' =
         seg_msg (Suc 0 < length (segments ts) \<and> Suc i = length (segments ts)) (segments ts ! i)"
      by blast
    from seg_msg_missing [OF i(3)] i(4)
    have "redirs_ok (segments ts ! i) \<and> argv_words (segments ts ! i) = []" by metis
    with i(1,2) show ?R unfolding seg_good_def by blast
  next
    assume ?R
    then obtain i where i: "i < length (segments ts)"
      "\<forall>j<i. redirs_ok (segments ts ! j) \<and> argv_words (segments ts ! j) \<noteq> []"
      "redirs_ok (segments ts ! i)" "argv_words (segments ts ! i) = []"
      by blast
    from i(4) have n: "\<not> seg_good (segments ts ! i)" by (simp add: seg_good_def)
    from seg_msg_missing [OF n] i(3,4)
    have "''Command missing after pipe.'' =
         seg_msg (Suc 0 < length (segments ts) \<and> Suc i = length (segments ts)) (segments ts ! i)"
      by metis
    with i(1,2) n show ?L unfolding seg_good_def by blast
  qed
  have B: "\<not> (\<exists>i<length (segments ts). (\<forall>j<i. seg_good (segments ts ! j)) \<and>
              \<not> seg_good (segments ts ! i) \<and>
              ''Empty command between pipes.'' =
                seg_msg (Suc 0 < length (segments ts) \<and> Suc i = length (segments ts))
                    (segments ts ! i))"
    using seg_msg_not_between by metis
  show ?thesis
    unfolding parse_tokens_Syntax adjacent_pipes_iff [symmetric]
    using A B by auto
qed

datatype ofile = Inherited nat | PipeRead nat | PipeWrite nat | FileRead string | FileWrite string

type_synonym fdtab = "ofile option list"

definition fd_valid :: "fdtab \<Rightarrow> nat \<Rightarrow> bool" where
  "fd_valid tab fd \<longleftrightarrow> fd < length tab \<and> tab ! fd \<noteq> None"

definition lowest_free :: "fdtab \<Rightarrow> nat" where
  "lowest_free tab = length (takeWhile (\<lambda>e. e \<noteq> None) tab)"

definition fd_set :: "fdtab \<Rightarrow> nat \<Rightarrow> ofile \<Rightarrow> fdtab" where
  "fd_set tab fd f = (tab @ replicate (Suc fd - length tab) None)[fd := Some f]"

definition sys_close :: "fdtab \<Rightarrow> nat \<Rightarrow> fdtab" where
  "sys_close tab fd = (if fd < length tab then tab[fd := None] else tab)"

definition sys_dup2 :: "bool \<Rightarrow> fdtab \<Rightarrow> nat \<Rightarrow> nat \<Rightarrow> bool \<times> fdtab" where
  "sys_dup2 ok tab oldfd newfd =
     (if \<not> ok \<or> \<not> fd_valid tab oldfd then (False, tab)
      else if oldfd = newfd then (True, tab)
      else (True, fd_set tab newfd (the (tab ! oldfd))))"

definition sys_open :: "fdtab \<Rightarrow> ofile \<Rightarrow> nat \<times> fdtab" where
  "sys_open tab f = (lowest_free tab, fd_set tab (lowest_free tab) f)"

definition sys_pipe :: "fdtab \<Rightarrow> nat \<Rightarrow> (nat \<times> nat) \<times> fdtab" where
  "sys_pipe tab i =
     (let (r, tab1) = sys_open tab (PipeRead i);
          (w, tab2) = sys_open tab1 (PipeWrite i)
      in ((r, w), tab2))"

datatype wstatus = Exited nat | Signaled nat

record env =
  pipe_array_ok :: bool
  pipe_ok :: "nat \<Rightarrow> bool"
  pid_array_ok :: bool
  fork_ok :: "nat \<Rightarrow> bool"
  dup2_ok :: "nat \<Rightarrow> nat \<Rightarrow> bool"
  open_ok :: "nat \<Rightarrow> nat \<Rightarrow> bool"
  exec_ok :: "nat \<Rightarrow> bool"
  prog_status :: "nat \<Rightarrow> wstatus"
  killed :: "nat \<Rightarrow> nat option"


datatype diag = Perror string | Fprintf string

datatype child_end =
    Exit nat "diag list" fdtab
  | Exec string "string list" fdtab "diag list"
  | Crash

definition close_all_pipes :: "(nat \<times> nat) list \<Rightarrow> fdtab \<Rightarrow> fdtab" where
  "close_all_pipes pipe_fds tab = fold (\<lambda>(r, w) t. sys_close (sys_close t r) w) pipe_fds tab"

fun create_pipes_from ::
  "env \<Rightarrow> nat \<Rightarrow> (nat \<times> nat) list \<Rightarrow> fdtab \<Rightarrow> int \<times> (nat \<times> nat) list \<times> fdtab" where
  "create_pipes_from e 0 pipe_fds tab = (0, pipe_fds, tab)"
| "create_pipes_from e (Suc k) pipe_fds tab =
     (if pipe_ok e (length pipe_fds) then
        (case sys_pipe tab (length pipe_fds) of
           (pr, tab') \<Rightarrow> create_pipes_from e k (pipe_fds @ [pr]) tab')
      else (- 1, pipe_fds, close_all_pipes pipe_fds tab))"

definition create_pipes :: "env \<Rightarrow> nat \<Rightarrow> fdtab \<Rightarrow> int \<times> (nat \<times> nat) list \<times> fdtab" where
  "create_pipes e n_pipes tab = create_pipes_from e n_pipes [] tab"

definition connect_pipes_for_child ::
  "env \<Rightarrow> nat \<Rightarrow> int \<Rightarrow> (nat \<times> nat) list \<Rightarrow> fdtab \<Rightarrow> fdtab \<times> diag list" where
  "connect_pipes_for_child e cmd_idx n pipe_fds tab =
     (let (ok1, tab1) =
            (if cmd_idx > 0
             then sys_dup2 (dup2_ok e cmd_idx 0) tab (fst (pipe_fds ! (cmd_idx - 1))) 0
             else (True, tab));
          d1 = (if ok1 then [] else [Perror ''dup2: pipe stdin'']);
          (ok2, tab2) =
            (if int cmd_idx < n - 1
             then sys_dup2 (dup2_ok e cmd_idx 1) tab1 (snd (pipe_fds ! cmd_idx)) 1
             else (True, tab1));
          d2 = (if ok2 then [] else [Perror ''dup2: pipe stdout''])
      in (close_all_pipes pipe_fds tab2, d1 @ d2))"

text \<open>One of the three blocks of \<open>apply_redirections\<close>: open, dup2 onto the standard
  descriptor, close the opened descriptor.\<close>

definition redirect ::
  "env \<Rightarrow> nat \<Rightarrow> nat \<Rightarrow> ofile \<Rightarrow> diag \<Rightarrow> diag \<Rightarrow> fdtab \<Rightarrow> int \<times> fdtab \<times> diag list" where
  "redirect e i target f open_msg dup_msg tab =
     (if \<not> open_ok e i target then (- 1, tab, [open_msg])
      else (case sys_open tab f of
              (fd, tab1) \<Rightarrow>
                (case sys_dup2 (dup2_ok e i (target + 2)) tab1 fd target of
                   (False, tab2) \<Rightarrow> (- 1, sys_close tab2 fd, [dup_msg])
                 | (True, tab2) \<Rightarrow> (0, sys_close tab2 fd, []))))"

text \<open>The three blocks of \<open>apply_redirections\<close>, each skipped when its field is NULL.\<close>

definition redirect_in :: "env \<Rightarrow> nat \<Rightarrow> Command \<Rightarrow> fdtab \<Rightarrow> int \<times> fdtab \<times> diag list" where
  "redirect_in e i cmd tab =
     (case in_file cmd of
        None \<Rightarrow> (0, tab, [])
      | Some (_, path) \<Rightarrow>
          redirect e i 0 (FileRead path) (Fprintf ''File not found.'')
            (Perror ''dup2: stdin redirection'') tab)"

definition redirect_out :: "env \<Rightarrow> nat \<Rightarrow> Command \<Rightarrow> fdtab \<Rightarrow> int \<times> fdtab \<times> diag list" where
  "redirect_out e i cmd tab =
     (case out_file cmd of
        None \<Rightarrow> (0, tab, [])
      | Some (_, path) \<Rightarrow>
          redirect e i 1 (FileWrite path) (Perror path)
            (Perror ''dup2: stdout redirection'') tab)"

definition redirect_err :: "env \<Rightarrow> nat \<Rightarrow> Command \<Rightarrow> fdtab \<Rightarrow> int \<times> fdtab \<times> diag list" where
  "redirect_err e i cmd tab =
     (case err_file cmd of
        None \<Rightarrow> (0, tab, [])
      | Some (_, path) \<Rightarrow>
          redirect e i 2 (FileWrite path) (Perror path)
            (Perror ''dup2: stderr redirection'') tab)"

definition apply_redirections ::
  "env \<Rightarrow> nat \<Rightarrow> Command \<Rightarrow> fdtab \<Rightarrow> int \<times> fdtab \<times> diag list" where
  "apply_redirections e i cmd tab =
     (case redirect_in e i cmd tab of
        (rc1, tab1, d1) \<Rightarrow>
          if rc1 < 0 then (- 1, tab1, d1)
          else
            (case redirect_out e i cmd tab1 of
               (rc2, tab2, d2) \<Rightarrow>
                 if rc2 < 0 then (- 1, tab2, d2)
                 else
                   (case redirect_err e i cmd tab2 of
                      (rc3, tab3, d3) \<Rightarrow>
                        if rc3 < 0 then (- 1, tab3, d3) else (0, tab3, []))))"

text \<open>The strings of a NULL-terminated array, or nothing when no cell is NULL.\<close>

fun c_strings :: "cstr list \<Rightarrow> string list option" where
  "c_strings [] = None"
| "c_strings (None # _) = Some []"
| "c_strings (Some (_, s) # cells) = map_option ((#) s) (c_strings cells)"

text \<open>
  The call \<open>execvp(argv[0], argv)\<close>. It reads the program name and the argument strings up to
  the terminating NULL: a NULL program name or an array without a terminating NULL makes the
  call fault. Otherwise the call either replaces the program image or returns.
\<close>

datatype exec_result = Replaced string "string list" | Returned | Fault

definition execvp :: "env \<Rightarrow> nat \<Rightarrow> cstr list \<Rightarrow> exec_result" where
  "execvp e i cells =
     (case cells of
        Some (_, file) # _ \<Rightarrow>
          (case c_strings cells of
             Some args \<Rightarrow> if exec_ok e i then Replaced file args else Returned
           | None \<Rightarrow> Fault)
      | _ \<Rightarrow> Fault)"

definition child_process ::
  "env \<Rightarrow> Pipeline \<Rightarrow> nat \<Rightarrow> (nat \<times> nat) list \<Rightarrow> fdtab \<Rightarrow> child_end" where
  "child_process e p i pipe_fds tab =
     (case cmds p of
        None \<Rightarrow> Crash
      | Some (_, cs) \<Rightarrow>
          if length cs \<le> i then Crash
          else
            (case (if n_cmds p - 1 > 0 then connect_pipes_for_child e i (n_cmds p) pipe_fds tab
                   else (tab, [])) of
               (tab1, d1) \<Rightarrow>
                 (case apply_redirections e i (cs ! i) tab1 of
                    (rc, tab2, d2) \<Rightarrow>
                      if rc < 0 then Exit 1 (d1 @ d2) tab2
                      else
                        (case argv (cs ! i) of
                           None \<Rightarrow> Crash
                         | Some (_, cells) \<Rightarrow>
                             (case execvp e i cells of
                                Replaced file args \<Rightarrow> Exec file args tab2 d1
                              | Returned \<Rightarrow>
                                  Exit 127
                                    (d1 @ [Fprintf (if n_cmds p = 1 then ''Command not found.''
                                                     else ''Command not found in pipe sequence.'')])
                                    tab2
                              | Fault \<Rightarrow> Crash)))))"

definition wait_status :: "env \<Rightarrow> nat \<Rightarrow> child_end \<Rightarrow> wstatus" where
  "wait_status e i c =
     (case killed e i of
        Some sig \<Rightarrow> Signaled sig
      | None \<Rightarrow>
          (case c of
             Exit code _ _ \<Rightarrow> Exited code
           | Exec _ _ _ _ \<Rightarrow> prog_status e i
           | Crash \<Rightarrow> Signaled 11))"

record run =
  ret :: int
  pipes_made :: nat
  children :: "child_end list"
  reaped :: "nat list"
  parent_fds :: fdtab

text \<open>The fork loop: the children forked before the first failing \<open>fork\<close>, and whether
  every \<open>fork\<close> succeeded.\<close>

fun fork_loop ::
  "env \<Rightarrow> Pipeline \<Rightarrow> (nat \<times> nat) list \<Rightarrow> fdtab \<Rightarrow> nat \<Rightarrow> child_end list \<Rightarrow> bool \<times> child_end list" where
  "fork_loop e p pipe_fds tab 0 done = (True, done)"
| "fork_loop e p pipe_fds tab (Suc k) done =
     (if fork_ok e (length done)
      then fork_loop e p pipe_fds tab k (done @ [child_process e p (length done) pipe_fds tab])
      else (False, done))"

definition last_exit_of :: "wstatus \<Rightarrow> int" where
  "last_exit_of st = (case st of Exited code \<Rightarrow> int code | Signaled _ \<Rightarrow> 1)"

text \<open>Step 1 of \<open>execute_pipeline\<close>: the pipe array and the pipes, when \<open>n_pipes > 0\<close>.\<close>

definition setup_pipes :: "env \<Rightarrow> int \<Rightarrow> fdtab \<Rightarrow> int \<times> (nat \<times> nat) list \<times> fdtab" where
  "setup_pipes e n_pipes tab =
     (if n_pipes > 0 then
        (if \<not> pipe_array_ok e then (- 1, [], tab)
         else create_pipes e (nat n_pipes) tab)
      else (0, [], tab))"

definition execute_pipeline :: "env \<Rightarrow> Pipeline option \<Rightarrow> fdtab \<Rightarrow> run" where
  "execute_pipeline e po tab =
     (case po of
        None \<Rightarrow> \<lparr>ret = 0, pipes_made = 0, children = [], reaped = [], parent_fds = tab\<rparr>
      | Some p \<Rightarrow>
          if n_cmds p = 0
          then \<lparr>ret = 0, pipes_made = 0, children = [], reaped = [], parent_fds = tab\<rparr>
          else
            (case setup_pipes e (n_cmds p - 1) tab of
               (rc, pipe_fds, tab1) \<Rightarrow>
                 if rc < 0
                 then \<lparr>ret = - 1, pipes_made = length pipe_fds, children = [], reaped = [],
                       parent_fds = tab1\<rparr>
                 else if \<not> (pid_array_ok e \<and> 0 \<le> n_cmds p)
                 then \<lparr>ret = - 1, pipes_made = length pipe_fds, children = [], reaped = [],
                       parent_fds = close_all_pipes pipe_fds tab1\<rparr>
                 else
                   (case fork_loop e p pipe_fds tab1 (nat (n_cmds p)) [] of
                      (False, cs) \<Rightarrow>
                        \<lparr>ret = - 1, pipes_made = length pipe_fds, children = cs,
                         reaped = [0..<length cs], parent_fds = close_all_pipes pipe_fds tab1\<rparr>
                    | (True, cs) \<Rightarrow>
                        \<lparr>ret = (if cs = [] then 0
                                else last_exit_of (wait_status e (length cs - 1) (last cs))),
                         pipes_made = length pipe_fds, children = cs,
                         reaped = [0..<length cs], parent_fds = close_all_pipes pipe_fds tab1\<rparr>)))"

definition std3 :: fdtab where
  "std3 = [Some (Inherited 0), Some (Inherited 1), Some (Inherited 2)]"

definition env_ok :: env where
  "env_ok = \<lparr>pipe_array_ok = True, pipe_ok = (\<lambda>_. True), pid_array_ok = True,
     fork_ok = (\<lambda>_. True), dup2_ok = (\<lambda>_ _. True), open_ok = (\<lambda>_ _. True), exec_ok = (\<lambda>_. True),
     prog_status = (\<lambda>i. Exited i), killed = (\<lambda>_. None)\<rparr>"

definition mk_cmd :: "string list \<Rightarrow> string option \<Rightarrow> string option \<Rightarrow> string option \<Rightarrow> Command" where
  "mk_cmd ws i out er = \<lparr>argv = Some (0, map (\<lambda>w. Some (0, w)) ws @ [None]),
     in_file = map_option (Pair 0) i, out_file = map_option (Pair 0) out, err_file = map_option (Pair 0) er\<rparr>"

definition fd_get :: "fdtab \<Rightarrow> nat \<Rightarrow> ofile option" where
  "fd_get tab fd = (if fd < length tab then tab ! fd else None)"

lemma fd_valid_get: "fd_valid tab fd \<longleftrightarrow> fd_get tab fd \<noteq> None"
  by (simp add: fd_valid_def fd_get_def)

lemma fd_get_set: "fd_get (fd_set tab fd f) k = (if k = fd then Some f else fd_get tab k)"
  by (auto simp: fd_get_def fd_set_def nth_append nth_list_update)

lemma fd_get_close: "fd_get (sys_close tab fd) k = (if k = fd then None else fd_get tab k)"
  by (auto simp: fd_get_def sys_close_def nth_list_update)

lemma lowest_free_free: "fd_get tab (lowest_free tab) = None"
proof (cases "lowest_free tab < length tab")
  case True
  then have "\<not> (\<lambda>e. e \<noteq> None) (tab ! length (takeWhile (\<lambda>e. e \<noteq> None) tab))"
    unfolding lowest_free_def by (intro nth_length_takeWhile)
  with True show ?thesis by (simp add: fd_get_def lowest_free_def)
next
  case False
  then show ?thesis by (simp add: fd_get_def)
qed

lemma lowest_free_least: "k < lowest_free tab \<Longrightarrow> fd_get tab k \<noteq> None"
proof -
  assume k: "k < lowest_free tab"
  have le: "lowest_free tab \<le> length tab"
    unfolding lowest_free_def by (rule length_takeWhile_le)
  from k have "takeWhile (\<lambda>e. e \<noteq> None) tab ! k = tab ! k"
    unfolding lowest_free_def by (rule takeWhile_nth)
  moreover from k have "takeWhile (\<lambda>e. e \<noteq> None) tab ! k \<in> set (takeWhile (\<lambda>e. e \<noteq> None) tab)"
    unfolding lowest_free_def by (rule nth_mem)
  ultimately have "tab ! k \<noteq> None" using set_takeWhileD by metis
  with k le show ?thesis by (simp add: fd_get_def)
qed

lemma lowest_free_ge: "\<forall>k<n. fd_get tab k \<noteq> None \<Longrightarrow> n \<le> lowest_free tab"
  using lowest_free_free [of tab] by (metis not_le_imp_less)

lemma sys_open_get:
  "sys_open tab f = (fd, tab') \<Longrightarrow> fd_get tab' k = (if k = fd then Some f else fd_get tab k)"
  by (auto simp: sys_open_def fd_get_set)

lemma sys_open_fd: "sys_open tab f = (fd, tab') \<Longrightarrow> fd = lowest_free tab"
  by (simp add: sys_open_def)

lemma fd_valid_the: "fd_valid tab fd \<Longrightarrow> fd_get tab fd = Some (the (tab ! fd))"
  by (auto simp: fd_valid_def fd_get_def)

lemma sys_dup2_get:
  "sys_dup2 ok tab old new = (True, tab') \<Longrightarrow>
   fd_get tab' k = (if k = new then fd_get tab old else fd_get tab k)"
  by (auto simp: sys_dup2_def fd_get_set fd_valid_the split: if_splits)

lemma sys_dup2_fail: "sys_dup2 ok tab old new = (False, tab') \<Longrightarrow> tab' = tab"
  by (auto simp: sys_dup2_def split: if_splits)

lemma sys_dup2_ok: "sys_dup2 ok tab old new = (r, tab') \<Longrightarrow> r \<longleftrightarrow> ok \<and> fd_get tab old \<noteq> None"
  by (auto simp: sys_dup2_def fd_valid_get split: if_splits)

definition std_open :: "fdtab \<Rightarrow> bool" where
  "std_open tab \<longleftrightarrow> fd_valid tab 0 \<and> fd_valid tab 1 \<and> fd_valid tab 2"

lemma std_open_get:
  "std_open tab \<longleftrightarrow> fd_get tab 0 \<noteq> None \<and> fd_get tab 1 \<noteq> None \<and> fd_get tab 2 \<noteq> None"
  by (simp add: std_open_def fd_valid_get)

lemma std_open_lowest: "std_open tab \<Longrightarrow> 3 \<le> lowest_free tab"
proof -
  assume s: "std_open tab"
  have "\<forall>k<3. fd_get tab k \<noteq> None"
  proof (intro allI impI)
    fix k :: nat assume "k < 3"
    then have "k = 0 \<or> k = 1 \<or> k = 2" by arith
    with s show "fd_get tab k \<noteq> None" by (auto simp: std_open_get)
  qed
  then show ?thesis by (rule lowest_free_ge)
qed

lemma std_open_cong:
  "std_open tab \<Longrightarrow> \<forall>k<3. fd_get tab' k = fd_get tab k \<Longrightarrow> std_open tab'"
  by (simp add: std_open_get)

definition pipes_wired :: "(nat \<times> nat) list \<Rightarrow> fdtab \<Rightarrow> bool" where
  "pipes_wired pipe_fds tab \<longleftrightarrow>
     (\<forall>i<length pipe_fds.
        3 \<le> fst (pipe_fds ! i) \<and> 3 \<le> snd (pipe_fds ! i) \<and>
        fd_get tab (fst (pipe_fds ! i)) = Some (PipeRead i) \<and>
        fd_get tab (snd (pipe_fds ! i)) = Some (PipeWrite i))"

lemma sys_pipe_get:
  assumes "sys_pipe tab i = ((r, w), tab')"
  shows "r = lowest_free tab" "fd_get tab w = None" "r \<noteq> w"
    "fd_get tab' k = (if k = w then Some (PipeWrite i) else if k = r then Some (PipeRead i)
                      else fd_get tab k)"
proof -
  obtain tab1 where o1: "sys_open tab (PipeRead i) = (r, tab1)"
    and o2: "sys_open tab1 (PipeWrite i) = (w, tab')"
    using assms by (auto simp: sys_pipe_def split: prod.splits)
  from o1 show r: "r = lowest_free tab" by (rule sys_open_fd)
  from o2 have w: "w = lowest_free tab1" by (rule sys_open_fd)
  from sys_open_get [OF o1] have g1: "fd_get tab1 k = (if k = r then Some (PipeRead i) else fd_get tab k)" for k .
  from w lowest_free_free [of tab1] have f: "fd_get tab1 w = None" by simp
  with g1 [of w] show rw: "r \<noteq> w" by auto
  with f g1 [of w] show "fd_get tab w = None" by auto
  from sys_open_get [OF o2] g1 show "fd_get tab' k = (if k = w then Some (PipeWrite i) else if k = r then Some (PipeRead i)
                      else fd_get tab k)" by auto
qed

lemma pipes_wired_snoc:
  assumes s: "std_open tab" and p: "pipes_wired fds tab"
    and sp: "sys_pipe tab (length fds) = (pr, tab')"
  shows "std_open tab' \<and> pipes_wired (fds @ [pr]) tab' \<and> (\<forall>k<3. fd_get tab' k = fd_get tab k)"
proof -
  obtain r w where pr: "pr = (r, w)" by (cases pr)
  note g = sys_pipe_get [OF sp [unfolded pr]]
  from s g(1) have r3: "3 \<le> r" using std_open_lowest by simp
  have w3: "3 \<le> w"
  proof (rule ccontr)
    assume "\<not> 3 \<le> w"
    then have "w = 0 \<or> w = 1 \<or> w = 2" by arith
    with s g(2) show False by (auto simp: std_open_get)
  qed
  from g(1) lowest_free_free [of tab] have rf: "fd_get tab r = None" by simp
  have keep: "\<forall>k<3. fd_get tab' k = fd_get tab k" using g(4) r3 w3 by auto
  with s have s': "std_open tab'" by (rule std_open_cong)
  have "pipes_wired (fds @ [pr]) tab'"
    unfolding pipes_wired_def
  proof (intro allI impI)
    fix i assume i: "i < length (fds @ [pr])"
    show "3 \<le> fst ((fds @ [pr]) ! i) \<and> 3 \<le> snd ((fds @ [pr]) ! i) \<and>
          fd_get tab' (fst ((fds @ [pr]) ! i)) = Some (PipeRead i) \<and>
          fd_get tab' (snd ((fds @ [pr]) ! i)) = Some (PipeWrite i)"
    proof (cases "i < length fds")
      case True
      with p have a: "3 \<le> fst (fds ! i)" "3 \<le> snd (fds ! i)"
        "fd_get tab (fst (fds ! i)) = Some (PipeRead i)"
        "fd_get tab (snd (fds ! i)) = Some (PipeWrite i)"
        by (auto simp: pipes_wired_def)
      from a(3,4) rf g(2) have "fst (fds ! i) \<noteq> r" "fst (fds ! i) \<noteq> w" "snd (fds ! i) \<noteq> r" "snd (fds ! i) \<noteq> w"
        by auto
      with a g(4) True show ?thesis by (simp add: nth_append)
    next
      case False
      with i have "i = length fds" by simp
      with pr r3 w3 g(3,4) show ?thesis by (simp add: nth_append)
    qed
  qed
  with s' keep show ?thesis by blast
qed

lemma create_pipes_from_ok:
  "std_open tab \<Longrightarrow> pipes_wired fds tab \<Longrightarrow> create_pipes_from e k fds tab = (0, fds', tab') \<Longrightarrow>
   std_open tab' \<and> pipes_wired fds' tab' \<and> length fds' = length fds + k \<and>
   (\<forall>j<3. fd_get tab' j = fd_get tab j)"
proof (induction e k fds tab rule: create_pipes_from.induct)
  case (1 e pipe_fds tab)
  then show ?case by simp
next
  case (2 e k pipe_fds tab)
  from "2.prems"(3) have ok: "pipe_ok e (length pipe_fds)" by (auto split: if_splits)
  obtain pr tab1 where sp: "sys_pipe tab (length pipe_fds) = (pr, tab1)"
    by (cases "sys_pipe tab (length pipe_fds)")
  from pipes_wired_snoc [OF "2.prems"(1,2) sp]
  have a: "std_open tab1" "pipes_wired (pipe_fds @ [pr]) tab1" "\<forall>k<3. fd_get tab1 k = fd_get tab k"
    by auto
  from "2.prems"(3) ok sp have "create_pipes_from e k (pipe_fds @ [pr]) tab1 = (0, fds', tab')"
    by simp
  from "2.IH" [OF ok sp [symmetric] a(1,2) this] a(3) show ?case by auto
qed

lemma create_pipes_from_count:
  "create_pipes_from e k fds tab = (rc, fds', tab') \<Longrightarrow>
   length fds' \<le> length fds + k \<and> (rc = 0 \<or> rc = - 1) \<and>
   (rc = 0 \<longleftrightarrow> (\<forall>i<k. pipe_ok e (length fds + i))) \<and>
   (rc = 0 \<longrightarrow> length fds' = length fds + k)"
proof (induction e k fds tab rule: create_pipes_from.induct)
  case (1 e pipe_fds tab)
  then show ?case by auto
next
  case (2 e k pipe_fds tab)
  show ?case
  proof (cases "pipe_ok e (length pipe_fds)")
    case False
    with "2.prems" have "rc = - 1" "fds' = pipe_fds" by auto
    with False show ?thesis by auto
  next
    case True
    obtain pr tab1 where sp: "sys_pipe tab (length pipe_fds) = (pr, tab1)"
      by (cases "sys_pipe tab (length pipe_fds)")
    from "2.prems" True sp have "create_pipes_from e k (pipe_fds @ [pr]) tab1 = (rc, fds', tab')"
      by simp
    from "2.IH" [OF True sp [symmetric] this] True show ?thesis
      by (auto simp: All_less_Suc2)
  qed
qed

lemma close_all_pipes_get:
  "\<forall>p\<in>set fds. k \<noteq> fst p \<and> k \<noteq> snd p \<Longrightarrow> fd_get (close_all_pipes fds tab) k = fd_get tab k"
  unfolding close_all_pipes_def
  by (induction fds arbitrary: tab) (auto simp: fd_get_close)

lemma pipes_wired_ge3: "pipes_wired fds tab \<Longrightarrow> p \<in> set fds \<Longrightarrow> 3 \<le> fst p \<and> 3 \<le> snd p"
  by (auto simp: pipes_wired_def in_set_conv_nth)

lemma close_all_pipes_std:
  "pipes_wired fds tab0 \<Longrightarrow> k < 3 \<Longrightarrow> fd_get (close_all_pipes fds tab) k = fd_get tab k"
  by (rule close_all_pipes_get) (use pipes_wired_ge3 in fastforce)

lemma connect_pipes_for_child_get:
  assumes s: "std_open tab" and p: "pipes_wired fds tab"
    and n: "int (length fds) = n - 1" and i: "int i < n"
    and c: "connect_pipes_for_child e i n fds tab = (tab', ds)"
  shows "fd_get tab' 0 = (if 0 < i \<and> dup2_ok e i 0 then Some (PipeRead (i - 1)) else fd_get tab 0)"
    and "fd_get tab' 1 = (if int i < n - 1 \<and> dup2_ok e i 1 then Some (PipeWrite i) else fd_get tab 1)"
    and "fd_get tab' 2 = fd_get tab 2"
    and "std_open tab'"
    and "\<forall>d\<in>set ds. \<exists>m. d = Perror m"
proof -
  define r1 where "r1 = (if i > 0 then sys_dup2 (dup2_ok e i 0) tab (fst (fds ! (i - 1))) 0 else (True, tab))"
  obtain ok1 tab1 where r1e: "r1 = (ok1, tab1)" by (cases r1)
  define r2 where "r2 = (if int i < n - 1 then sys_dup2 (dup2_ok e i 1) tab1 (snd (fds ! i)) 1 else (True, tab1))"
  obtain ok2 tab2 where r2e: "r2 = (ok2, tab2)" by (cases r2)
  from c have tab': "tab' = close_all_pipes fds tab2"
    and ds: "ds = (if ok1 then [] else [Perror ''dup2: pipe stdin'']) @ (if ok2 then [] else [Perror ''dup2: pipe stdout''])"
    unfolding connect_pipes_for_child_def r1_def [symmetric] r1e
    by (simp_all add: r2_def [symmetric] r2e Let_def)
  have g1: "fd_get tab1 k = (if k = 0 \<and> 0 < i \<and> dup2_ok e i 0 then Some (PipeRead (i - 1)) else fd_get tab k)" for k
  proof (cases "0 < i")
    case False
    with r1e show ?thesis by (simp add: r1_def)
  next
    case True
    with n i have in_range: "i - 1 < length fds" by simp
    with p have v: "fd_get tab (fst (fds ! (i - 1))) = Some (PipeRead (i - 1))"
      by (simp add: pipes_wired_def)
    from True r1e have d: "sys_dup2 (dup2_ok e i 0) tab (fst (fds ! (i - 1))) 0 = (ok1, tab1)"
      by (simp add: r1_def)
    from sys_dup2_ok [OF d] v have ok: "ok1 \<longleftrightarrow> dup2_ok e i 0" by simp
    show ?thesis
    proof (cases ok1)
      case True
      with d sys_dup2_get [of "dup2_ok e i 0" tab "fst (fds ! (i - 1))" 0 tab1 k] ok v \<open>0 < i\<close>
      show ?thesis by simp
    next
      case False
      with d sys_dup2_fail [of "dup2_ok e i 0" tab "fst (fds ! (i - 1))" 0 tab1] ok
      show ?thesis by simp
    qed
  qed
  have g2: "fd_get tab2 k = (if k = 1 \<and> int i < n - 1 \<and> dup2_ok e i 1 then Some (PipeWrite i) else fd_get tab1 k)" for k
  proof (cases "int i < n - 1")
    case False
    with r2e show ?thesis by (simp add: r2_def)
  next
    case True
    with n have in_range: "i < length fds" by simp
    with p have "fd_get tab (snd (fds ! i)) = Some (PipeWrite i)" "3 \<le> snd (fds ! i)"
      by (simp_all add: pipes_wired_def)
    with g1 [of "snd (fds ! i)"] have v: "fd_get tab1 (snd (fds ! i)) = Some (PipeWrite i)" by simp
    from True r2e have d: "sys_dup2 (dup2_ok e i 1) tab1 (snd (fds ! i)) 1 = (ok2, tab2)"
      by (simp add: r2_def)
    from sys_dup2_ok [OF d] v have ok: "ok2 \<longleftrightarrow> dup2_ok e i 1" by simp
    show ?thesis
    proof (cases ok2)
      case True
      with d sys_dup2_get [of "dup2_ok e i 1" tab1 "snd (fds ! i)" 1 tab2 k] ok v \<open>int i < n - 1\<close>
      show ?thesis by simp
    next
      case False
      with d sys_dup2_fail [of "dup2_ok e i 1" tab1 "snd (fds ! i)" 1 tab2] ok
      show ?thesis by simp
    qed
  qed
  have cl: "fd_get tab' k = fd_get tab2 k" if "k < 3" for k
    unfolding tab' using p that by (rule close_all_pipes_std)
  from cl [of 0] g2 [of 0] g1 [of 0]
  show a: "fd_get tab' 0 = (if 0 < i \<and> dup2_ok e i 0 then Some (PipeRead (i - 1)) else fd_get tab 0)"
    by simp
  from cl [of 1] g2 [of 1] g1 [of 1]
  show b: "fd_get tab' 1 = (if int i < n - 1 \<and> dup2_ok e i 1 then Some (PipeWrite i) else fd_get tab 1)"
    by simp
  from cl [of 2] g2 [of 2] g1 [of 2] show c: "fd_get tab' 2 = fd_get tab 2" by simp
  from a b c s show "std_open tab'" by (auto simp: std_open_get)
  from ds show "\<forall>d\<in>set ds. \<exists>m. d = Perror m" by auto
qed

lemma redirect_get:
  assumes s: "std_open tab" and t: "target < 3"
    and r: "redirect e i target f om dm tab = (rc, tab', ds)"
  shows "rc = 0 \<or> rc = - 1"
    and "rc = 0 \<longleftrightarrow> open_ok e i target \<and> dup2_ok e i (target + 2)"
    and "rc = 0 \<Longrightarrow> fd_get tab' target = Some f \<and> ds = []"
    and "\<forall>k<3. k \<noteq> target \<or> rc \<noteq> 0 \<longrightarrow> fd_get tab' k = fd_get tab k"
    and "std_open tab'"
proof -
  have all: "(rc = 0 \<or> rc = - 1) \<and> (rc = 0 \<longleftrightarrow> open_ok e i target \<and> dup2_ok e i (target + 2)) \<and>
     (rc = 0 \<longrightarrow> fd_get tab' target = Some f \<and> ds = []) \<and>
     (\<forall>k<3. k \<noteq> target \<or> rc \<noteq> 0 \<longrightarrow> fd_get tab' k = fd_get tab k)"
  proof (cases "open_ok e i target")
    case False
    with r show ?thesis by (simp add: redirect_def)
  next
    case True
    obtain fd tab1 where o: "sys_open tab f = (fd, tab1)" by (cases "sys_open tab f")
    obtain ok tab2 where d: "sys_dup2 (dup2_ok e i (target + 2)) tab1 fd target = (ok, tab2)"
      by (cases "sys_dup2 (dup2_ok e i (target + 2)) tab1 fd target")
    from sys_open_fd [OF o] s have fd3: "3 \<le> fd" using std_open_lowest by simp
    note g1 = sys_open_get [OF o]
    from g1 [of fd] have v: "fd_get tab1 fd = Some f" by simp
    from sys_dup2_ok [OF d] v have ok: "ok \<longleftrightarrow> dup2_ok e i (target + 2)" by simp
    show ?thesis
    proof (cases ok)
      case True
      with r \<open>open_ok e i target\<close> o d have res: "rc = 0" "tab' = sys_close tab2 fd" "ds = []"
        by (simp_all add: redirect_def)
      from True d have g2: "fd_get tab2 k = (if k = target then fd_get tab1 fd else fd_get tab1 k)" for k
        using sys_dup2_get by simp
      from res g2 g1 v fd3 t ok True \<open>open_ok e i target\<close> show ?thesis
        by (auto simp: fd_get_close)
    next
      case False
      with r \<open>open_ok e i target\<close> o d have res: "rc = - 1" "tab' = sys_close tab2 fd"
        by (simp_all add: redirect_def)
      from False d have "tab2 = tab1" using sys_dup2_fail by simp
      with res g1 fd3 ok False show ?thesis by (auto simp: fd_get_close)
    qed
  qed
  then show "rc = 0 \<or> rc = - 1" "rc = 0 \<longleftrightarrow> open_ok e i target \<and> dup2_ok e i (target + 2)"
    "rc = 0 \<Longrightarrow> fd_get tab' target = Some f \<and> ds = []"
    "\<forall>k<3. k \<noteq> target \<or> rc \<noteq> 0 \<longrightarrow> fd_get tab' k = fd_get tab k"
    by blast+
  from all s t show "std_open tab'"
    unfolding std_open_get
    by (metis (no_types, lifting) One_nat_def Suc_1 lessI less_Suc_eq numeral_3_eq_3 option.distinct(1) zero_less_Suc)
qed

lemma redirect_rc:
  "redirect e i target f om dm tab = (rc, tab', ds) \<Longrightarrow>
   (rc = 0 \<or> rc = - 1) \<and> (rc = 0 \<longleftrightarrow> open_ok e i target \<and> dup2_ok e i (target + 2))"
proof -
  assume r: "redirect e i target f om dm tab = (rc, tab', ds)"
  show ?thesis
  proof (cases "open_ok e i target")
    case False
    with r show ?thesis by (simp add: redirect_def)
  next
    case True
    obtain fd tab1 where o: "sys_open tab f = (fd, tab1)" by (cases "sys_open tab f")
    obtain ok tab2 where d: "sys_dup2 (dup2_ok e i (target + 2)) tab1 fd target = (ok, tab2)"
      by (cases "sys_dup2 (dup2_ok e i (target + 2)) tab1 fd target")
    from sys_open_get [OF o, of fd] have v: "fd_get tab1 fd = Some f" by simp
    from sys_dup2_ok [OF d] v have ok: "ok \<longleftrightarrow> dup2_ok e i (target + 2)" by simp
    from r True o d ok show ?thesis by (cases ok) (simp_all add: redirect_def)
  qed
qed

definition redirs_succeed :: "env \<Rightarrow> nat \<Rightarrow> Command \<Rightarrow> bool" where
  "redirs_succeed e i cmd \<longleftrightarrow>
     (in_file cmd = None \<or> open_ok e i 0 \<and> dup2_ok e i 2) \<and>
     (out_file cmd = None \<or> open_ok e i 1 \<and> dup2_ok e i 3) \<and>
     (err_file cmd = None \<or> open_ok e i 2 \<and> dup2_ok e i 4)"

lemma apply_redirections_eq:
  assumes "redirect_in e i cmd tab = (rc1, tab1, d1)"
    and "redirect_out e i cmd tab1 = (rc2, tab2, d2)"
    and "redirect_err e i cmd tab2 = (rc3, tab3, d3)"
  shows "apply_redirections e i cmd tab =
     (if rc1 < 0 then (- 1, tab1, d1) else if rc2 < 0 then (- 1, tab2, d2)
      else if rc3 < 0 then (- 1, tab3, d3) else (0, tab3, []))"
  using assms by (simp add: apply_redirections_def)

lemma redirect_blocks_rc:
  "redirect_in e i cmd tab = (rc, tab', ds) \<Longrightarrow>
     (rc = 0 \<or> rc = - 1) \<and> (rc = 0 \<longleftrightarrow> in_file cmd = None \<or> open_ok e i 0 \<and> dup2_ok e i 2)"
  "redirect_out e i cmd tab = (rc, tab', ds) \<Longrightarrow>
     (rc = 0 \<or> rc = - 1) \<and> (rc = 0 \<longleftrightarrow> out_file cmd = None \<or> open_ok e i 1 \<and> dup2_ok e i 3)"
  "redirect_err e i cmd tab = (rc, tab', ds) \<Longrightarrow>
     (rc = 0 \<or> rc = - 1) \<and> (rc = 0 \<longleftrightarrow> err_file cmd = None \<or> open_ok e i 2 \<and> dup2_ok e i 4)"
proof -
  have n: "(0::nat) + 2 = 2" "(1::nat) + 2 = 3" "(2::nat) + 2 = 4" by simp_all
  {
    assume a: "redirect_in e i cmd tab = (rc, tab', ds)"
    show "(rc = 0 \<or> rc = - 1) \<and> (rc = 0 \<longleftrightarrow> in_file cmd = None \<or> open_ok e i 0 \<and> dup2_ok e i 2)"
    proof (cases "in_file cmd")
      case None
      with a show ?thesis by (simp add: redirect_in_def)
    next
      case (Some af)
      obtain b f where "af = (b, f)" by (cases af)
      with Some a have "redirect e i 0 (FileRead f) (Fprintf ''File not found.'')
            (Perror ''dup2: stdin redirection'') tab = (rc, tab', ds)"
        by (simp add: redirect_in_def)
      from redirect_rc [OF this] Some show ?thesis unfolding n by auto
    qed
  }
  {
    assume a: "redirect_out e i cmd tab = (rc, tab', ds)"
    show "(rc = 0 \<or> rc = - 1) \<and> (rc = 0 \<longleftrightarrow> out_file cmd = None \<or> open_ok e i 1 \<and> dup2_ok e i 3)"
    proof (cases "out_file cmd")
      case None
      with a show ?thesis by (simp add: redirect_out_def)
    next
      case (Some af)
      obtain b f where "af = (b, f)" by (cases af)
      with Some a have "redirect e i 1 (FileWrite f) (Perror f)
            (Perror ''dup2: stdout redirection'') tab = (rc, tab', ds)"
        by (simp add: redirect_out_def)
      from redirect_rc [OF this] Some show ?thesis unfolding n by auto
    qed
  }
  {
    assume a: "redirect_err e i cmd tab = (rc, tab', ds)"
    show "(rc = 0 \<or> rc = - 1) \<and> (rc = 0 \<longleftrightarrow> err_file cmd = None \<or> open_ok e i 2 \<and> dup2_ok e i 4)"
    proof (cases "err_file cmd")
      case None
      with a show ?thesis by (simp add: redirect_err_def)
    next
      case (Some af)
      obtain b f where "af = (b, f)" by (cases af)
      with Some a have "redirect e i 2 (FileWrite f) (Perror f)
            (Perror ''dup2: stderr redirection'') tab = (rc, tab', ds)"
        by (simp add: redirect_err_def)
      from redirect_rc [OF this] Some show ?thesis unfolding n by auto
    qed
  }
qed

lemma apply_redirections_rc:
  assumes "apply_redirections e i cmd tab = (rc, tab', ds)"
  shows "(rc = 0 \<or> rc = - 1) \<and> (rc = 0 \<longleftrightarrow> redirs_succeed e i cmd)"
proof -
  obtain rc1 tab1 d1 where r1: "redirect_in e i cmd tab = (rc1, tab1, d1)"
    by (cases "redirect_in e i cmd tab")
  obtain rc2 tab2 d2 where r2: "redirect_out e i cmd tab1 = (rc2, tab2, d2)"
    by (cases "redirect_out e i cmd tab1")
  obtain rc3 tab3 d3 where r3: "redirect_err e i cmd tab2 = (rc3, tab3, d3)"
    by (cases "redirect_err e i cmd tab2")
  note a1 = redirect_blocks_rc(1) [OF r1]
  note a2 = redirect_blocks_rc(2) [OF r2]
  note a3 = redirect_blocks_rc(3) [OF r3]
  define A where "A \<longleftrightarrow> in_file cmd = None \<or> open_ok e i 0 \<and> dup2_ok e i 2"
  define B where "B \<longleftrightarrow> out_file cmd = None \<or> open_ok e i 1 \<and> dup2_ok e i 3"
  define C where "C \<longleftrightarrow> err_file cmd = None \<or> open_ok e i 2 \<and> dup2_ok e i 4"
  from a1 have n1: "rc1 < 0 \<longleftrightarrow> \<not> A" unfolding A_def by auto
  from a2 have n2: "rc2 < 0 \<longleftrightarrow> \<not> B" unfolding B_def by auto
  from a3 have n3: "rc3 < 0 \<longleftrightarrow> \<not> C" unfolding C_def by auto
  have "rc = (if rc1 < 0 then - 1 else if rc2 < 0 then - 1 else if rc3 < 0 then - 1 else 0)"
    using assms unfolding apply_redirections_eq [OF r1 r2 r3] by (simp split: if_splits)
  then have "(rc = 0 \<or> rc = - 1) \<and> (rc = 0 \<longleftrightarrow> A \<and> B \<and> C)"
    unfolding n1 n2 n3 by (auto split: if_splits)
  then show ?thesis unfolding redirs_succeed_def A_def B_def C_def .
qed

lemma redirect_blocks_get:
  assumes s: "std_open tab"
  shows "redirect_in e i cmd tab = (rc, tab', ds) \<Longrightarrow> \<not> rc < 0 \<Longrightarrow>
     std_open tab' \<and>
     fd_get tab' 0 = (case in_file cmd of None \<Rightarrow> fd_get tab 0 | Some (_, f) \<Rightarrow> Some (FileRead f)) \<and>
     fd_get tab' 1 = fd_get tab 1 \<and> fd_get tab' 2 = fd_get tab 2"
    and "redirect_out e i cmd tab = (rc, tab', ds) \<Longrightarrow> \<not> rc < 0 \<Longrightarrow>
     std_open tab' \<and> fd_get tab' 0 = fd_get tab 0 \<and>
     fd_get tab' 1 = (case out_file cmd of None \<Rightarrow> fd_get tab 1 | Some (_, f) \<Rightarrow> Some (FileWrite f)) \<and>
     fd_get tab' 2 = fd_get tab 2"
    and "redirect_err e i cmd tab = (rc, tab', ds) \<Longrightarrow> \<not> rc < 0 \<Longrightarrow>
     std_open tab' \<and> fd_get tab' 0 = fd_get tab 0 \<and> fd_get tab' 1 = fd_get tab 1 \<and>
     fd_get tab' 2 = (case err_file cmd of None \<Rightarrow> fd_get tab 2 | Some (_, f) \<Rightarrow> Some (FileWrite f))"
proof -
  {
    assume a: "redirect_in e i cmd tab = (rc, tab', ds)" and rc: "\<not> rc < 0"
    show "std_open tab' \<and>
     fd_get tab' 0 = (case in_file cmd of None \<Rightarrow> fd_get tab 0 | Some (_, f) \<Rightarrow> Some (FileRead f)) \<and>
     fd_get tab' 1 = fd_get tab 1 \<and> fd_get tab' 2 = fd_get tab 2"
    proof (cases "in_file cmd")
      case None
      with a s show ?thesis by (simp add: redirect_in_def)
    next
      case (Some af)
      obtain b f where af: "af = (b, f)" by (cases af)
      with Some a have r: "redirect e i 0 (FileRead f) (Fprintf ''File not found.'')
            (Perror ''dup2: stdin redirection'') tab = (rc, tab', ds)"
        by (simp add: redirect_in_def)
      from redirect_get(1) [OF s _ r] rc have "rc = 0" by auto
      with redirect_get(3,4,5) [OF s _ r] Some af show ?thesis by simp
    qed
  }
  {
    assume a: "redirect_out e i cmd tab = (rc, tab', ds)" and rc: "\<not> rc < 0"
    show "std_open tab' \<and> fd_get tab' 0 = fd_get tab 0 \<and>
     fd_get tab' 1 = (case out_file cmd of None \<Rightarrow> fd_get tab 1 | Some (_, f) \<Rightarrow> Some (FileWrite f)) \<and>
     fd_get tab' 2 = fd_get tab 2"
    proof (cases "out_file cmd")
      case None
      with a s show ?thesis by (simp add: redirect_out_def)
    next
      case (Some af)
      obtain b f where af: "af = (b, f)" by (cases af)
      with Some a have r: "redirect e i 1 (FileWrite f) (Perror f)
            (Perror ''dup2: stdout redirection'') tab = (rc, tab', ds)"
        by (simp add: redirect_out_def)
      from redirect_get(1) [OF s _ r] rc have "rc = 0" by auto
      with redirect_get(3,4,5) [OF s _ r] Some af show ?thesis by simp
    qed
  }
  {
    assume a: "redirect_err e i cmd tab = (rc, tab', ds)" and rc: "\<not> rc < 0"
    show "std_open tab' \<and> fd_get tab' 0 = fd_get tab 0 \<and> fd_get tab' 1 = fd_get tab 1 \<and>
     fd_get tab' 2 = (case err_file cmd of None \<Rightarrow> fd_get tab 2 | Some (_, f) \<Rightarrow> Some (FileWrite f))"
    proof (cases "err_file cmd")
      case None
      with a s show ?thesis by (simp add: redirect_err_def)
    next
      case (Some af)
      obtain b f where af: "af = (b, f)" by (cases af)
      with Some a have r: "redirect e i 2 (FileWrite f) (Perror f)
            (Perror ''dup2: stderr redirection'') tab = (rc, tab', ds)"
        by (simp add: redirect_err_def)
      from redirect_get(1) [OF s _ r] rc have "rc = 0" by auto
      with redirect_get(3,4,5) [OF s _ r] Some af show ?thesis by simp
    qed
  }
qed

lemma apply_redirections_get:
  assumes s: "std_open tab" and a: "apply_redirections e i cmd tab = (0, tab', ds)"
  shows "fd_get tab' 0 = (case in_file cmd of None \<Rightarrow> fd_get tab 0 | Some (_, f) \<Rightarrow> Some (FileRead f))"
    and "fd_get tab' 1 = (case out_file cmd of None \<Rightarrow> fd_get tab 1 | Some (_, f) \<Rightarrow> Some (FileWrite f))"
    and "fd_get tab' 2 = (case err_file cmd of None \<Rightarrow> fd_get tab 2 | Some (_, f) \<Rightarrow> Some (FileWrite f))"
    and "ds = []"
proof -
  obtain rc1 tab1 d1 where r1: "redirect_in e i cmd tab = (rc1, tab1, d1)"
    by (cases "redirect_in e i cmd tab")
  obtain rc2 tab2 d2 where r2: "redirect_out e i cmd tab1 = (rc2, tab2, d2)"
    by (cases "redirect_out e i cmd tab1")
  obtain rc3 tab3 d3 where r3: "redirect_err e i cmd tab2 = (rc3, tab3, d3)"
    by (cases "redirect_err e i cmd tab2")
  from a have res: "\<not> rc1 < 0 \<and> \<not> rc2 < 0 \<and> \<not> rc3 < 0 \<and> tab' = tab3 \<and> ds = []"
    unfolding apply_redirections_eq [OF r1 r2 r3] by (simp split: if_splits)
  then have n1: "\<not> rc1 < 0" and n2: "\<not> rc2 < 0" and n3: "\<not> rc3 < 0" by blast+
  note b1 = redirect_blocks_get(1) [OF s r1 n1]
  then have s1: "std_open tab1" by blast
  note b2 = redirect_blocks_get(2) [OF s1 r2 n2]
  then have s2: "std_open tab2" by blast
  note b3 = redirect_blocks_get(3) [OF s2 r3 n3]
  from b1 b2 b3 res
  show "fd_get tab' 0 = (case in_file cmd of None \<Rightarrow> fd_get tab 0 | Some (_, f) \<Rightarrow> Some (FileRead f))"
    "fd_get tab' 1 = (case out_file cmd of None \<Rightarrow> fd_get tab 1 | Some (_, f) \<Rightarrow> Some (FileWrite f))"
    "fd_get tab' 2 = (case err_file cmd of None \<Rightarrow> fd_get tab 2 | Some (_, f) \<Rightarrow> Some (FileWrite f))"
    by (auto split: option.splits)
  from res show "ds = []" by blast
qed

lemma fork_loop_children:
  "fork_loop e p fds tab k done = (b, cs) \<Longrightarrow>
   length cs \<le> length done + k \<and>
   (b \<longleftrightarrow> (\<forall>j<k. fork_ok e (length done + j))) \<and>
   (b \<longrightarrow> length cs = length done + k) \<and>
   (\<forall>j<length cs. cs ! j = (if j < length done then done ! j else child_process e p j fds tab))"
proof (induction e p fds tab k "done" rule: fork_loop.induct)
  case (1 e p pipe_fds tab dn)
  then show ?case by auto
next
  case (2 e p pipe_fds tab k dn)
  show ?case
  proof (cases "fork_ok e (length dn)")
    case False
    with "2.prems" have "b = False" "cs = dn" by auto
    with False show ?thesis by auto
  next
    case True
    with "2.prems"
    have "fork_loop e p pipe_fds tab k (dn @ [child_process e p (length dn) pipe_fds tab]) = (b, cs)"
      by simp
    from "2.IH" [OF True this]
    have ih: "length cs \<le> Suc (length dn + k)"
      "b \<longleftrightarrow> (\<forall>j<k. fork_ok e (length dn + Suc j))"
      "b \<longrightarrow> length cs = Suc (length dn + k)"
      "\<forall>j<length cs. cs ! j = (if j < Suc (length dn)
          then (dn @ [child_process e p (length dn) pipe_fds tab]) ! j
          else child_process e p j pipe_fds tab)"
      by simp_all
    have "\<forall>j<length cs. cs ! j = (if j < length dn then dn ! j else child_process e p j pipe_fds tab)"
    proof (intro allI impI)
      fix j assume "j < length cs"
      with ih(4) have "cs ! j = (if j < Suc (length dn)
          then (dn @ [child_process e p (length dn) pipe_fds tab]) ! j
          else child_process e p j pipe_fds tab)" by blast
      then show "cs ! j = (if j < length dn then dn ! j else child_process e p j pipe_fds tab)"
        by (cases "j < length dn"; cases "j = length dn") (simp_all add: nth_append)
    qed
    with ih(1,2,3) True show ?thesis by (simp add: All_less_Suc2)
  qed
qed

lemma setup_pipes_count:
  "setup_pipes e n tab = (rc, fds, tab1) \<Longrightarrow>
   (rc = 0 \<or> rc = - 1) \<and> int (length fds) \<le> max 0 n \<and>
   (rc = 0 \<longleftrightarrow> \<not> (0 < n \<and> (\<not> pipe_array_ok e \<or> (\<exists>i<nat n. \<not> pipe_ok e i)))) \<and>
   (rc = 0 \<longrightarrow> int (length fds) = max 0 n)"
proof (cases "0 < n \<and> pipe_array_ok e")
  case True
  assume "setup_pipes e n tab = (rc, fds, tab1)"
  with True have "create_pipes_from e (nat n) [] tab = (rc, fds, tab1)"
    by (simp add: setup_pipes_def create_pipes_def)
  from create_pipes_from_count [OF this] True show ?thesis by auto
next
  case False
  assume "setup_pipes e n tab = (rc, fds, tab1)"
  with False show ?thesis by (auto simp: setup_pipes_def split: if_splits)
qed

lemma setup_pipes_std:
  assumes s: "std_open tab" and c: "setup_pipes e n tab = (0, fds, tab1)"
  shows "std_open tab1" "pipes_wired fds tab1" "int (length fds) = max 0 n"
    "\<forall>j<3. fd_get tab1 j = fd_get tab j"
proof -
  have "std_open tab1 \<and> pipes_wired fds tab1 \<and> (\<forall>j<3. fd_get tab1 j = fd_get tab j)"
  proof (cases "0 < n")
    case True
    with c have "create_pipes_from e (nat n) [] tab = (0, fds, tab1)"
      by (simp add: setup_pipes_def create_pipes_def split: if_splits)
    from create_pipes_from_ok [OF s _ this] show ?thesis
      by (simp add: pipes_wired_def)
  next
    case False
    with c s show ?thesis by (simp add: setup_pipes_def pipes_wired_def)
  qed
  then show "std_open tab1" "pipes_wired fds tab1" "\<forall>j<3. fd_get tab1 j = fd_get tab j"
    by blast+
  from setup_pipes_count [OF c] show "int (length fds) = max 0 n" by simp
qed

definition idle_run :: "fdtab \<Rightarrow> run" where
  "idle_run tab = \<lparr>ret = 0, pipes_made = 0, children = [], reaped = [], parent_fds = tab\<rparr>"

lemma execute_pipeline_eq:
  assumes "setup_pipes e (n_cmds p - 1) tab = (rc, fds, tab1)"
    and "fork_loop e p fds tab1 (nat (n_cmds p)) [] = (b, cs)"
  shows "execute_pipeline e (Some p) tab =
     (if n_cmds p = 0 then idle_run tab
      else if rc < 0
      then \<lparr>ret = - 1, pipes_made = length fds, children = [], reaped = [], parent_fds = tab1\<rparr>
      else if \<not> (pid_array_ok e \<and> 0 \<le> n_cmds p)
      then \<lparr>ret = - 1, pipes_made = length fds, children = [], reaped = [],
            parent_fds = close_all_pipes fds tab1\<rparr>
      else if \<not> b
      then \<lparr>ret = - 1, pipes_made = length fds, children = cs, reaped = [0..<length cs],
            parent_fds = close_all_pipes fds tab1\<rparr>
      else \<lparr>ret = (if cs = [] then 0 else last_exit_of (wait_status e (length cs - 1) (last cs))),
            pipes_made = length fds, children = cs, reaped = [0..<length cs],
            parent_fds = close_all_pipes fds tab1\<rparr>)"
  using assms by (cases b) (simp_all add: execute_pipeline_def idle_run_def)

lemma execute_pipeline_child:
  assumes i: "i < length (children (execute_pipeline e (Some p) tab))"
  shows "\<exists>fds tab1.
           setup_pipes e (n_cmds p - 1) tab = (0, fds, tab1) \<and> int i < n_cmds p \<and>
           children (execute_pipeline e (Some p) tab) ! i = child_process e p i fds tab1"
proof -
  obtain rc fds tab1 where sp: "setup_pipes e (n_cmds p - 1) tab = (rc, fds, tab1)"
    by (cases "setup_pipes e (n_cmds p - 1) tab")
  obtain b cs where fl: "fork_loop e p fds tab1 (nat (n_cmds p)) [] = (b, cs)"
    by (cases "fork_loop e p fds tab1 (nat (n_cmds p)) []")
  note eq = execute_pipeline_eq [OF sp fl]
  from i have c: "children (execute_pipeline e (Some p) tab) = cs" and rc: "\<not> rc < 0"
    unfolding eq by (auto simp: idle_run_def split: if_splits)
  from setup_pipes_count [OF sp] rc have rc0: "rc = 0" by auto
  from fork_loop_children [OF fl] i c
  have "i < nat (n_cmds p)" "cs ! i = child_process e p i fds tab1" by auto
  with c sp rc0 show ?thesis by auto
qed

text \<open>
  The order of the two steps in the child. In every child that reaches \<open>execvp\<close>, when the
  shell's own descriptors 0, 1 and 2 are open, the file table at that moment binds
  descriptor 0 to the file named by \<open>in_file\<close> when the command has one, and otherwise to the
  read end of pipe \<open>i - 1\<close> (for \<open>i > 0\<close>, when that \<open>dup2\<close> succeeded) or to what the shell
  itself had there; and descriptor 1 to the file named by \<open>out_file\<close> when the command has
  one, and otherwise to the write end of pipe \<open>i\<close> (for \<open>i < n - 1\<close>) or to what the shell had.
\<close>

lemma redirection_overrides_pipe:
  assumes std: "std_open tab"
    and cs: "cmds p = Some (a, cs)"
    and i: "i < length (children (execute_pipeline e (Some p) tab))"
    and ex: "children (execute_pipeline e (Some p) tab) ! i = Exec file args tab' ds"
  shows "fd_get tab' 0 =
           (case in_file (cs ! i) of
              Some (b, f) \<Rightarrow> Some (FileRead f)
            | None \<Rightarrow> if 0 < i \<and> dup2_ok e i 0 then Some (PipeRead (i - 1)) else fd_get tab 0) \<and>
         fd_get tab' 1 =
           (case out_file (cs ! i) of
              Some (b, f) \<Rightarrow> Some (FileWrite f)
            | None \<Rightarrow> if int i < n_cmds p - 1 \<and> dup2_ok e i 1 then Some (PipeWrite i)
                      else fd_get tab 1)"
proof -
  from execute_pipeline_child [OF i] obtain fds tab1 where
    cp: "setup_pipes e (n_cmds p - 1) tab = (0, fds, tab1)"
    and il: "int i < n_cmds p"
    and ch: "children (execute_pipeline e (Some p) tab) ! i = child_process e p i fds tab1"
    by blast
  note w = setup_pipes_std [OF std cp]
  define cn where "cn = (if n_cmds p - 1 > 0 then connect_pipes_for_child e i (n_cmds p) fds tab1
                   else (tab1, []))"
  obtain tab2 d1 where cne: "cn = (tab2, d1)" by (cases cn)
  obtain rc tab3 d2 where ap: "apply_redirections e i (cs ! i) tab2 = (rc, tab3, d2)"
    by (cases "apply_redirections e i (cs ! i) tab2")
  from ch ex cs have len: "i < length cs"
    by (auto simp: child_process_def split: if_splits)
  from ch ex cs len cne ap have rc: "\<not> rc < 0" and t3: "tab' = tab3"
    unfolding child_process_def cn_def [symmetric]
    by (auto split: if_splits option.splits exec_result.splits)
  from apply_redirections_rc [OF ap] rc have rc0: "rc = 0" by auto
  have g2: "std_open tab2 \<and>
     fd_get tab2 0 = (if 0 < i \<and> dup2_ok e i 0 then Some (PipeRead (i - 1)) else fd_get tab 0) \<and>
     fd_get tab2 1 = (if int i < n_cmds p - 1 \<and> dup2_ok e i 1 then Some (PipeWrite i) else fd_get tab 1)"
  proof (cases "n_cmds p - 1 > 0")
    case True
    with cne have c: "connect_pipes_for_child e i (n_cmds p) fds tab1 = (tab2, d1)"
      by (simp add: cn_def)
    from True w(3) have n: "int (length fds) = n_cmds p - 1" by simp
    from connect_pipes_for_child_get [OF w(1,2) n il c] w(4) show ?thesis by simp
  next
    case False
    with il have "i = 0" by simp
    with False cne w(1,4) show ?thesis by (simp add: cn_def)
  qed
  then have s2: "std_open tab2" by blast
  from apply_redirections_get(1,2) [OF s2 ap [unfolded rc0]] g2 t3 show ?thesis
    by (auto split: option.splits)
qed

definition parent_call_fails :: "env \<Rightarrow> int \<Rightarrow> bool" where
  "parent_call_fails e n \<longleftrightarrow>
     (0 < n - 1 \<and> (\<not> pipe_array_ok e \<or> (\<exists>i<nat (n - 1). \<not> pipe_ok e i))) \<or>
     \<not> (pid_array_ok e \<and> 0 \<le> n) \<or>
     (\<exists>i<nat n. \<not> fork_ok e i)"

text \<open>
  Claim C2. The return value of \<open>execute_pipeline\<close>: 0 at once, with no pipe and no child,
  for a NULL pipeline or one with \<open>n_cmds = 0\<close>; \<open>- 1\<close> when a call of the parent fails (the
  allocation of the pipe array or of the pid array, a \<open>pipe\<close>, a \<open>fork\<close>); otherwise one child
  per command was forked, every one of them was waited for in order, and the value is the
  exit status of the last command, or 1 when that child was ended by a signal.
\<close>

theorem execute_pipeline_return:
  "execute_pipeline e None tab = \<lparr>ret = 0, pipes_made = 0, children = [], reaped = [], parent_fds = tab\<rparr> \<and>
   (n_cmds p = 0 \<longrightarrow>
      execute_pipeline e (Some p) tab =
        \<lparr>ret = 0, pipes_made = 0, children = [], reaped = [], parent_fds = tab\<rparr>) \<and>
   (n_cmds p \<noteq> 0 \<and> parent_call_fails e (n_cmds p) \<longrightarrow>
      ret (execute_pipeline e (Some p) tab) = - 1) \<and>
   (n_cmds p \<noteq> 0 \<and> \<not> parent_call_fails e (n_cmds p) \<longrightarrow>
      length (children (execute_pipeline e (Some p) tab)) = nat (n_cmds p) \<and>
      reaped (execute_pipeline e (Some p) tab) = [0..<nat (n_cmds p)] \<and>
      ret (execute_pipeline e (Some p) tab) =
        (case wait_status e (nat (n_cmds p) - 1)
                (children (execute_pipeline e (Some p) tab) ! (nat (n_cmds p) - 1)) of
           Exited code \<Rightarrow> int code
         | Signaled sig \<Rightarrow> 1))"
proof -
  obtain rc fds tab1 where sp: "setup_pipes e (n_cmds p - 1) tab = (rc, fds, tab1)"
    by (cases "setup_pipes e (n_cmds p - 1) tab")
  obtain b cs where fl: "fork_loop e p fds tab1 (nat (n_cmds p)) [] = (b, cs)"
    by (cases "fork_loop e p fds tab1 (nat (n_cmds p)) []")
  note eq = execute_pipeline_eq [OF sp fl]
  note c = setup_pipes_count [OF sp]
  from fork_loop_children [OF fl]
  have f: "b \<longleftrightarrow> (\<forall>j<nat (n_cmds p). fork_ok e j)" "b \<longrightarrow> length cs = nat (n_cmds p)"
    by simp_all
  have fails: "parent_call_fails e (n_cmds p) \<longleftrightarrow>
      rc < 0 \<or> \<not> (pid_array_ok e \<and> 0 \<le> n_cmds p) \<or> \<not> b"
    using c f(1) unfolding parent_call_fails_def by auto
  have A: "execute_pipeline e None tab =
      \<lparr>ret = 0, pipes_made = 0, children = [], reaped = [], parent_fds = tab\<rparr>"
    by (simp add: execute_pipeline_def)
  have B: "n_cmds p = 0 \<longrightarrow> execute_pipeline e (Some p) tab =
        \<lparr>ret = 0, pipes_made = 0, children = [], reaped = [], parent_fds = tab\<rparr>"
    by (simp add: execute_pipeline_def)
  have C: "n_cmds p \<noteq> 0 \<and> parent_call_fails e (n_cmds p) \<longrightarrow>
      ret (execute_pipeline e (Some p) tab) = - 1"
    unfolding eq fails by auto
  have D: "n_cmds p \<noteq> 0 \<and> \<not> parent_call_fails e (n_cmds p) \<longrightarrow>
      length (children (execute_pipeline e (Some p) tab)) = nat (n_cmds p) \<and>
      reaped (execute_pipeline e (Some p) tab) = [0..<nat (n_cmds p)] \<and>
      ret (execute_pipeline e (Some p) tab) =
        (case wait_status e (nat (n_cmds p) - 1)
                (children (execute_pipeline e (Some p) tab) ! (nat (n_cmds p) - 1)) of
           Exited code \<Rightarrow> int code
         | Signaled sig \<Rightarrow> 1)"
  proof (intro impI)
    assume h: "n_cmds p \<noteq> 0 \<and> \<not> parent_call_fails e (n_cmds p)"
    with fails f(2) have l: "length cs = nat (n_cmds p)" and pos: "0 < n_cmds p" by auto
    then have ne: "cs \<noteq> []" by auto
    then have "last cs = cs ! (length cs - 1)" by (rule last_conv_nth)
    with h fails l ne show "length (children (execute_pipeline e (Some p) tab)) = nat (n_cmds p) \<and>
      reaped (execute_pipeline e (Some p) tab) = [0..<nat (n_cmds p)] \<and>
      ret (execute_pipeline e (Some p) tab) =
        (case wait_status e (nat (n_cmds p) - 1)
                (children (execute_pipeline e (Some p) tab) ! (nat (n_cmds p) - 1)) of
           Exited code \<Rightarrow> int code
         | Signaled sig \<Rightarrow> 1)"
      unfolding eq by (simp add: last_exit_of_def)
  qed
  from A B C D show ?thesis by blast
qed

theorem pipes_per_command_count:
  assumes "n_cmds p = int k + 1"
  shows "pipes_made (execute_pipeline e (Some p) tab) \<le> k \<and>
         (pipe_array_ok e \<and> (\<forall>i<k. pipe_ok e i) \<longrightarrow>
            pipes_made (execute_pipeline e (Some p) tab) = k) \<and>
         (ret (execute_pipeline e (Some p) tab) \<noteq> - 1 \<longrightarrow>
            pipes_made (execute_pipeline e (Some p) tab) = k) \<and>
         (k = 0 \<longrightarrow> pipes_made (execute_pipeline e (Some p) tab) = 0)"
proof -
  obtain rc fds tab1 where sp: "setup_pipes e (n_cmds p - 1) tab = (rc, fds, tab1)"
    by (cases "setup_pipes e (n_cmds p - 1) tab")
  obtain b cs where fl: "fork_loop e p fds tab1 (nat (n_cmds p)) [] = (b, cs)"
    by (cases "fork_loop e p fds tab1 (nat (n_cmds p)) []")
  note eq = execute_pipeline_eq [OF sp fl]
  from setup_pipes_count [OF sp] assms
  have c: "rc = 0 \<or> rc = - 1" "length fds \<le> k"
    "rc = 0 \<longleftrightarrow> \<not> (0 < k \<and> (\<not> pipe_array_ok e \<or> (\<exists>i<k. \<not> pipe_ok e i)))"
    "rc = 0 \<longrightarrow> length fds = k"
    by auto
  from assms have pm: "pipes_made (execute_pipeline e (Some p) tab) = length fds"
    unfolding eq by simp
  from assms have "ret (execute_pipeline e (Some p) tab) \<noteq> - 1 \<longrightarrow> rc = 0"
    unfolding eq using c(1) by (auto split: if_splits)
  with c pm show ?thesis by auto
qed

lemma connect_pipes_for_child_diags:
  "connect_pipes_for_child e i n fds tab = (tab', ds) \<Longrightarrow> \<forall>d\<in>set ds. \<exists>m. d = Perror m"
  by (auto simp: connect_pipes_for_child_def Let_def split: prod.splits if_splits)

text \<open>
  Claim C5. A child whose \<open>execvp\<close> call returns writes exactly one fixed diagnostic,
  \<open>Command not found.\<close> when the pipeline has one command and
  \<open>Command not found in pipe sequence.\<close> when it has more, and exits with status 127. Nothing
  else is written after the redirections succeeded; before it there can only be the \<open>perror\<close>
  lines of a failed \<open>dup2\<close> of the pipe wiring, and none at all for a single command. The
  child is the \<open>i\<close>-th one forked, its redirections succeeded, so that it reaches the call, and
  the call returns.
\<close>

theorem exec_failure_diagnostic:
  assumes cs: "cmds p = Some (a, cs)" and len: "i < length cs"
    and av: "argv (cs ! i) = Some (b, cells)"
    and i: "i < length (children (execute_pipeline e (Some p) tab))"
    and rs: "redirs_succeed e i (cs ! i)"
    and ex: "execvp e i cells = Returned"
  shows "\<exists>ws tab'.
           children (execute_pipeline e (Some p) tab) ! i =
             Exit 127
               (ws @ [Fprintf (if n_cmds p = 1 then ''Command not found.''
                               else ''Command not found in pipe sequence.'')])
               tab' \<and>
           (\<forall>d\<in>set ws. \<exists>m. d = Perror m) \<and> (n_cmds p = 1 \<longrightarrow> ws = []) \<and>
           (killed e i = None \<longrightarrow>
              wait_status e i (children (execute_pipeline e (Some p) tab) ! i) = Exited 127)"
proof -
  from execute_pipeline_child [OF i] obtain fds tab1 where
    ch: "children (execute_pipeline e (Some p) tab) ! i = child_process e p i fds tab1"
    by blast
  define cn where "cn = (if n_cmds p - 1 > 0 then connect_pipes_for_child e i (n_cmds p) fds tab1
                   else (tab1, []))"
  obtain tab2 d1 where cne: "cn = (tab2, d1)" by (cases cn)
  obtain rc tab3 d2 where ap: "apply_redirections e i (cs ! i) tab2 = (rc, tab3, d2)"
    by (cases "apply_redirections e i (cs ! i) tab2")
  from apply_redirections_rc [OF ap] rs have rc0: "rc = 0" by simp
  have d1: "(\<forall>d\<in>set d1. \<exists>m. d = Perror m) \<and> (n_cmds p = 1 \<longrightarrow> d1 = [])"
  proof (cases "n_cmds p - 1 > 0")
    case True
    with cne connect_pipes_for_child_diags [of e i "n_cmds p" fds tab1 tab2 d1] show ?thesis
      by (simp add: cn_def)
  next
    case False
    with cne show ?thesis by (simp add: cn_def)
  qed
  have "child_process e p i fds tab1 =
     Exit 127 (d1 @ [Fprintf (if n_cmds p = 1 then ''Command not found.''
                               else ''Command not found in pipe sequence.'')]) tab3"
    unfolding child_process_def cn_def [symmetric]
    using cs len cne ap rc0 av ex by simp
  with ch d1 show ?thesis by (auto simp: wait_status_def)
qed

subsection \<open>A worked run\<close>

definition demo_env :: env where
  "demo_env = \<lparr>pipe_array_ok = True, pipe_ok = (\<lambda>_. True), pid_array_ok = True,
     fork_ok = (\<lambda>_. True), dup2_ok = (\<lambda>_ _. True), open_ok = (\<lambda>_ _. True),
     exec_ok = (\<lambda>i. i \<noteq> 2), prog_status = (\<lambda>i. Exited 0), killed = (\<lambda>_. None)\<rparr>"

definition demo_cmds :: "Command list" where
  "demo_cmds =
     [\<lparr>argv = Some (101, [Some (102, ''cat''), None]), in_file = Some (103, ''in.txt''),
       out_file = None, err_file = None\<rparr>,
      \<lparr>argv = Some (104, [Some (105, ''grep''), Some (106, ''x''), None]),
       in_file = Some (107, ''f''), out_file = Some (108, ''o''), err_file = None\<rparr>,
      \<lparr>argv = Some (109, [Some (110, ''nosuch''), None]), in_file = None,
       out_file = None, err_file = None\<rparr>]"

definition demo_pipeline :: Pipeline where
  "demo_pipeline = \<lparr>cmds = Some (100, demo_cmds), n_cmds = 3\<rparr>"

lemma demo_run:
  "execute_pipeline demo_env (Some demo_pipeline) std3 =
     \<lparr>ret = 127, pipes_made = 2,
      children =
        [Exec ''cat'' [''cat'']
           [Some (FileRead ''in.txt''), Some (PipeWrite 0), Some (Inherited 2), None, None, None, None] [],
         Exec ''grep'' [''grep'', ''x'']
           [Some (FileRead ''f''), Some (FileWrite ''o''), Some (Inherited 2), None, None, None, None] [],
         Exit 127 [Fprintf ''Command not found in pipe sequence.'']
           [Some (PipeRead 1), Some (Inherited 1), Some (Inherited 2), None, None, None, None]],
      reaped = [0, 1, 2],
      parent_fds = [Some (Inherited 0), Some (Inherited 1), Some (Inherited 2), None, None, None, None]\<rparr>"
  by code_simp

lemma demo_fork_failure:
  "ret (execute_pipeline (demo_env\<lparr>fork_ok := (\<lambda>i. i \<noteq> 1)\<rparr>) (Some demo_pipeline) std3) = - 1"
  by code_simp

lemma std_open_std3: "std_open std3"
  by (simp add: std_open_def fd_valid_def std3_def)

lemma redirection_overrides_pipe_demo:
  "std_open std3 \<and> cmds demo_pipeline = Some (100, demo_cmds) \<and>
   1 < length (children (execute_pipeline demo_env (Some demo_pipeline) std3)) \<and>
   children (execute_pipeline demo_env (Some demo_pipeline) std3) ! 1 =
     Exec ''grep'' [''grep'', ''x'']
       [Some (FileRead ''f''), Some (FileWrite ''o''), Some (Inherited 2), None, None, None, None] [] \<and>
   fd_get [Some (FileRead ''f''), Some (FileWrite ''o''), Some (Inherited 2), None, None, None, None] 0 =
     Some (FileRead ''f'') \<and>
   fd_get [Some (FileRead ''f''), Some (FileWrite ''o''), Some (Inherited 2), None, None, None, None] 1 =
     Some (FileWrite ''o'')"
proof -
  have c: "cmds demo_pipeline = Some (100, demo_cmds)" by (simp add: demo_pipeline_def)
  have i: "1 < length (children (execute_pipeline demo_env (Some demo_pipeline) std3))"
    by (simp add: demo_run)
  have x: "children (execute_pipeline demo_env (Some demo_pipeline) std3) ! 1 =
     Exec ''grep'' [''grep'', ''x'']
       [Some (FileRead ''f''), Some (FileWrite ''o''), Some (Inherited 2), None, None, None, None] []"
    by (simp add: demo_run)
  from redirection_overrides_pipe [OF std_open_std3 c i x] std_open_std3 c i x
  show ?thesis by (simp add: demo_cmds_def)
qed

theorem execute_pipeline_return_witness:
  "n_cmds demo_pipeline \<noteq> 0 \<and> \<not> parent_call_fails demo_env (n_cmds demo_pipeline) \<and>
   ret (execute_pipeline demo_env (Some demo_pipeline) std3) = 127 \<and>
   wait_status demo_env 2 (children (execute_pipeline demo_env (Some demo_pipeline) std3) ! 2) =
     Exited 127 \<and>
   parent_call_fails (demo_env\<lparr>fork_ok := (\<lambda>i. i \<noteq> 1)\<rparr>) (n_cmds demo_pipeline) \<and>
   ret (execute_pipeline (demo_env\<lparr>fork_ok := (\<lambda>i. i \<noteq> 1)\<rparr>) (Some demo_pipeline) std3) = - 1"
proof -
  have n: "n_cmds demo_pipeline \<noteq> 0" by (simp add: demo_pipeline_def)
  have ok: "\<not> parent_call_fails demo_env (n_cmds demo_pipeline)"
    by (simp add: parent_call_fails_def demo_env_def demo_pipeline_def)
  have bad: "parent_call_fails (demo_env\<lparr>fork_ok := (\<lambda>i. i \<noteq> 1)\<rparr>) (n_cmds demo_pipeline)"
  proof -
    have "(1::nat) < nat 3 \<and> \<not> (1::nat) \<noteq> 1" by simp
    then have "\<exists>i<nat 3. \<not> i \<noteq> (1::nat)" by blast
    then show ?thesis by (simp add: parent_call_fails_def demo_env_def demo_pipeline_def)
  qed
  have k: "killed demo_env 2 = None" by (simp add: demo_env_def)
  have w: "wait_status demo_env 2 (children (execute_pipeline demo_env (Some demo_pipeline) std3) ! 2) =
     Exited 127"
    by (simp add: demo_run wait_status_def k)
  from execute_pipeline_return [of demo_env std3 demo_pipeline] n ok w
  have "ret (execute_pipeline demo_env (Some demo_pipeline) std3) = 127"
    by (simp add: demo_pipeline_def)
  moreover from execute_pipeline_return [of "demo_env\<lparr>fork_ok := (\<lambda>i. i \<noteq> 1)\<rparr>" std3 demo_pipeline] n bad
  have "ret (execute_pipeline (demo_env\<lparr>fork_ok := (\<lambda>i. i \<noteq> 1)\<rparr>) (Some demo_pipeline) std3) = - 1"
    by blast
  ultimately show ?thesis using n ok w bad by blast
qed

theorem exec_failure_diagnostic_witness:
  "cmds demo_pipeline = Some (100, demo_cmds) \<and> 2 < length demo_cmds \<and>
   argv (demo_cmds ! 2) = Some (109, [Some (110, ''nosuch''), None]) \<and>
   2 < length (children (execute_pipeline demo_env (Some demo_pipeline) std3)) \<and>
   redirs_succeed demo_env 2 (demo_cmds ! 2) \<and>
   execvp demo_env 2 [Some (110, ''nosuch''), None] = Returned \<and>
   children (execute_pipeline demo_env (Some demo_pipeline) std3) ! 2 =
     Exit 127 [Fprintf ''Command not found in pipe sequence.'']
       [Some (PipeRead 1), Some (Inherited 1), Some (Inherited 2), None, None, None, None] \<and>
   wait_status demo_env 2 (children (execute_pipeline demo_env (Some demo_pipeline) std3) ! 2) =
     Exited 127"
proof -
  have c: "cmds demo_pipeline = Some (100, demo_cmds)" by (simp add: demo_pipeline_def)
  have l: "2 < length demo_cmds" by (simp add: demo_cmds_def)
  have a: "argv (demo_cmds ! 2) = Some (109, [Some (110, ''nosuch''), None])"
    by (simp add: demo_cmds_def)
  have i: "2 < length (children (execute_pipeline demo_env (Some demo_pipeline) std3))"
    by (simp add: demo_run)
  have r: "redirs_succeed demo_env 2 (demo_cmds ! 2)"
    by (simp add: redirs_succeed_def demo_cmds_def)
  have x: "execvp demo_env 2 [Some (110, ''nosuch''), None] = Returned"
    by (simp add: execvp_def demo_env_def)
  have k: "killed demo_env 2 = None" by (simp add: demo_env_def)
  from exec_failure_diagnostic [OF c l a i r x] k
  have "wait_status demo_env 2 (children (execute_pipeline demo_env (Some demo_pipeline) std3) ! 2) =
     Exited 127" by blast
  with c l a i r x show ?thesis by (simp add: demo_run)
qed

subsection \<open>A shell started with descriptor 1 closed\<close>

definition closed_stdout :: fdtab where
  "closed_stdout = [Some (Inherited 0), None, Some (Inherited 2)]"

definition lost_pipeline :: Pipeline where
  "lost_pipeline =
     \<lparr>cmds = Some (100,
        [\<lparr>argv = Some (101, [Some (102, ''p0''), None]), in_file = None,
          out_file = Some (103, ''o''), err_file = None\<rparr>,
         \<lparr>argv = Some (104, [Some (105, ''p1''), None]), in_file = None,
          out_file = None, err_file = None\<rparr>]),
      n_cmds = 2\<rparr>"

text \<open>
  Claim C1. An explicit redirection is to override the pipe wiring on the same descriptor:
  whenever a command has \<open>out_file\<close> set, descriptor 1 is bound to that file when the child
  calls \<open>execvp\<close>. The code misses the case where \<open>open\<close> returns the standard descriptor
  itself. For the line \<open>p0 > o | p1\<close> in a shell whose descriptor 1 is closed, every system
  call succeeding: \<open>pipe\<close> returns the descriptors 1 and 3, child 0 duplicates the write end 3
  onto 1 and closes both raw pipe descriptors 1 and 3, \<open>open\<close> of \<open>o\<close> returns 1, \<open>dup2\<close> of 1
  onto 1 does nothing and the \<open>close\<close> of the opened descriptor closes descriptor 1. Child 0
  reaches \<open>execvp\<close> with descriptor 1 closed, bound neither to the file \<open>o\<close> nor to the pipe.
\<close>

theorem redirection_lost_on_closed_stdout:
  "out_file (hd (snd (the (cmds lost_pipeline)))) = Some (103, ''o'') \<and>
   children (execute_pipeline env_ok (Some lost_pipeline) closed_stdout) ! 0 =
     Exec ''p0'' [''p0''] [Some (Inherited 0), None, Some (Inherited 2), None] [] \<and>
   fd_get [Some (Inherited 0), None, Some (Inherited 2), None] 1 = None"
  by code_simp

end
